theory Spec2Isabelle
  imports Main "HOL-Library.Word"
begin

section \<open>Outcomes of a call\<close>

text \<open>
  The header \<^verbatim>\<open>engine/core/tasks/awaitable_task.hpp\<close> is modelled sequentially: one
  thread runs one member function from entry to exit, and no other thread changes a
  queue or resolves a future meanwhile. Every way in which a C++ call does not
  return normally is a value of \<open>abort\<close>:
  \<^item> \<open>bad_task_access\<close>: the \<^verbatim>\<open>std::logic_error ("bad task access")\<close> thrown by an empty task;
  \<^item> \<open>uncaught e\<close>: another exception \<open>e\<close> leaving the function;
  \<^item> \<open>std_terminate\<close>: an exception reached a \<^verbatim>\<open>noexcept\<close> boundary;
  \<^item> \<open>blocks_forever\<close>: the call waits (condition variable, \<^verbatim>\<open>future::get\<close>, spin loop)
    for an event that only another thread could produce;
  \<^item> \<open>undefined_behaviour\<close>: the C++ standard gives the step no meaning (an end
    iterator dereferenced, incremented or used as a splice position, an index out of range);
  \<^item> \<open>division_by_zero\<close>: the operator \<^verbatim>\<open>%\<close> with a zero divisor.
\<close>

type_synonym exn = string

datatype abort =
    bad_task_access
  | uncaught exn
  | std_terminate
  | blocks_forever
  | undefined_behaviour
  | division_by_zero

definition then_do :: "abort + 'a \<Rightarrow> ('a \<Rightarrow> abort + 'b) \<Rightarrow> abort + 'b" where
  "then_do r k = (case r of Inl e \<Rightarrow> Inl e | Inr a \<Rightarrow> k a)"

text \<open>A function declared \<^verbatim>\<open>noexcept\<close>: an exception that would leave it ends the process.\<close>

definition noexcept :: "abort + 'a \<Rightarrow> abort + 'a" where
  "noexcept r = (case r of Inl (uncaught e) \<Rightarrow> Inl std_terminate
                         | Inl bad_task_access \<Rightarrow> Inl std_terminate
                         | _ \<Rightarrow> r)"

section \<open>Futures, promises and packaged tasks (the runtime's primitives)\<close>

type_synonym val = int
type_synonym fut_id = nat

datatype shared_state = Pending | Has_value val | Has_exception exn

text \<open>The shared states of all promise/future pairs, by identity.\<close>

type_synonym env = "fut_id \<Rightarrow> shared_state"

datatype future_status = ready_status | timeout_status | deferred_status

text \<open>\<^verbatim>\<open>t.wait_for (0s)\<close>: a poll. The futures here come from packaged tasks, never deferred.\<close>

definition wait_for_0s :: "env \<Rightarrow> fut_id \<Rightarrow> future_status" where
  "wait_for_0s env f = (case env f of Pending \<Rightarrow> timeout_status | _ \<Rightarrow> ready_status)"

text \<open>\<^verbatim>\<open>t.get ()\<close>: the value, or the stored exception rethrown; waits while pending.\<close>

definition future_get :: "env \<Rightarrow> fut_id \<Rightarrow> abort + val" where
  "future_get env f = (case env f of
       Pending \<Rightarrow> Inl blocks_forever
     | Has_value v \<Rightarrow> Inr v
     | Has_exception e \<Rightarrow> Inl (uncaught e))"

text \<open>
  What a callable is handed in one parameter: a value, or a future itself (a future
  that was passed through without \<^verbatim>\<open>get ()\<close>). A callable returns a value or throws;
  it may look at the futures it was handed. \<^verbatim>\<open>std::packaged_task\<close> pairs it with a
  shared state; calling the packaged task runs the callable on the arguments it is
  handed and stores the value or the exception the callable threw. A second call
  throws \<^verbatim>\<open>std::future_error\<close>.
\<close>

datatype call_arg = Value val | Future_arg fut_id

type_synonym callable = "env \<Rightarrow> call_arg list \<Rightarrow> exn + val"

record packaged_task =
  stored :: callable
  shared :: fut_id

definition get_future :: "packaged_task \<Rightarrow> fut_id" where
  "get_future p = shared p"

definition packaged_task_call :: "packaged_task \<Rightarrow> call_arg list \<Rightarrow> env \<Rightarrow> abort + env" where
  "packaged_task_call p vs env = (case env (shared p) of
       Pending \<Rightarrow> Inr (env (shared p :=
                     (case stored p env vs of Inl e \<Rightarrow> Has_exception e | Inr v \<Rightarrow> Has_value v)))
     | _ \<Rightarrow> Inl (uncaught ''promise_already_satisfied''))"

section \<open>The task object: \<^verbatim>\<open>awaitable_task\<close>\<close>

text \<open>
  A slot of the argument tuple \<^verbatim>\<open>_args\<close> of an awaitable task. The factory
  \<^verbatim>\<open>make_awaitable_task (F && f, Args && ... args)\<close> deduces \<^verbatim>\<open>Args\<close> from forwarding
  references and stores a \<^verbatim>\<open>std::tuple <Args...>\<close>:
  \<^item> an rvalue argument (a temporary, or \<^verbatim>\<open>std::move (x)\<close>) gives \<^verbatim>\<open>Args = T\<close>; the element
    is held by value: \<open>Plain v\<close> for a value, \<open>Fut f\<close> for a \<^verbatim>\<open>std::future\<close>, which can
    only be moved in;
  \<^item> an lvalue argument gives \<^verbatim>\<open>Args = T &\<close>; the element is a reference to the caller's
    object: \<open>Plain_ref v\<close> for an object with value \<open>v\<close>, \<open>Fut_ref f\<close> for the caller's
    \<^verbatim>\<open>std::future\<close>.
\<close>

datatype bound_arg = Plain val | Fut fut_id | Plain_ref val | Fut_ref fut_id

text \<open>
  The expression handed to \<^verbatim>\<open>call_ready\<close> is \<^verbatim>\<open>std::get <I> (_args)\<close>: an lvalue that
  designates the element. An element held by value is \<^verbatim>\<open>const\<close> when the tuple is; an
  element of reference type designates its referent, which the constness of the tuple
  does not reach.
\<close>

datatype cv = Mutable | Const

fun element_cv :: "cv \<Rightarrow> bound_arg \<Rightarrow> cv" where
  "element_cv c (Plain v) = c"
| "element_cv c (Fut f) = c"
| "element_cv c (Plain_ref v) = Mutable"
| "element_cv c (Fut_ref f) = Mutable"

text \<open>
  The two models behind \<^verbatim>\<open>task_concept\<close>. A ready task passes its arguments through
  unchanged, futures included.
\<close>

datatype task_concept =
    ready_task_model packaged_task "call_arg list"
  | awaitable_task_model packaged_task "bound_arg list"

text \<open>\<^verbatim>\<open>std::unique_ptr <task_concept> _t\<close>: \<open>None\<close> is the empty (default or moved-from) task.\<close>

type_synonym awaitable_task = "task_concept option"

definition make_ready_task :: "callable \<Rightarrow> call_arg list \<Rightarrow> fut_id \<Rightarrow> awaitable_task \<times> fut_id" where
  "make_ready_task f args out =
     (let p = \<lparr>stored = f, shared = out\<rparr>
      in (Some (ready_task_model p args), get_future p))"

definition make_awaitable_task :: "callable \<Rightarrow> bound_arg list \<Rightarrow> fut_id \<Rightarrow> awaitable_task \<times> fut_id" where
  "make_awaitable_task f args out =
     (let p = \<lparr>stored = f, shared = out\<rparr>
      in (Some (awaitable_task_model p args), get_future p))"

text \<open>
  \<^verbatim>\<open>call_get\<close> has two overloads, both \<^verbatim>\<open>noexcept\<close>: \<^verbatim>\<open>call_get (T &&)\<close> forwards its
  argument and \<^verbatim>\<open>call_get (std::future <T> &&)\<close> returns \<^verbatim>\<open>t.get ()\<close>. In \<^verbatim>\<open>do_invoke_\<close> the
  argument is \<^verbatim>\<open>std::get <I> (std::move (_args))\<close>: an rvalue for an element held by
  value, so that a future goes to the second overload; an lvalue for an element of
  reference type, which cannot bind to \<^verbatim>\<open>std::future <T> &&\<close>, so that the caller's future
  is forwarded as it is by the first overload. (That the callable then takes the
  future itself is decided by \<^verbatim>\<open>nonstd::decay_future\<close>, which is not among the sources.)
\<close>

fun call_get :: "env \<Rightarrow> bound_arg \<Rightarrow> abort + call_arg" where
  "call_get env (Plain v) = noexcept (Inr (Value v))"
| "call_get env (Fut f) = noexcept (then_do (future_get env f) (\<lambda>v. Inr (Value v)))"
| "call_get env (Plain_ref v) = noexcept (Inr (Value v))"
| "call_get env (Fut_ref f) = noexcept (Inr (Future_arg f))"

text \<open>
  The pack expansion \<^verbatim>\<open>call_get (std::get <I> (std::move (_args)))...\<close> is the argument
  list of the call of \<^verbatim>\<open>_f\<close>: every \<^verbatim>\<open>call_get\<close> is evaluated before the packaged task is
  entered. The order among the arguments is unspecified in C++; here it is left to right.
\<close>

fun call_get_all :: "env \<Rightarrow> bound_arg list \<Rightarrow> abort + call_arg list" where
  "call_get_all env [] = Inr []"
| "call_get_all env (a # as) =
     then_do (call_get env a) (\<lambda>v.
     then_do (call_get_all env as) (\<lambda>vs. Inr (v # vs)))"

definition do_invoke :: "packaged_task \<Rightarrow> bound_arg list \<Rightarrow> env \<Rightarrow> abort + env" where
  "do_invoke p args env = then_do (call_get_all env args) (\<lambda>vs. packaged_task_call p vs env)"

text \<open>
  \<^verbatim>\<open>call_ready\<close> has two overloads: \<^verbatim>\<open>call_ready (T &)\<close> returns true and
  \<^verbatim>\<open>call_ready (std::future <T> & t)\<close> polls \<^verbatim>\<open>t.wait_for (0s)\<close>. The second takes a
  reference to a non-const future. Template argument deduction cannot bind it to an
  lvalue of type \<^verbatim>\<open>const std::future <U>\<close>; for such an argument only the first overload
  is viable, with \<^verbatim>\<open>T = const std::future <U>\<close>.
\<close>

fun call_ready :: "env \<Rightarrow> cv \<Rightarrow> bound_arg \<Rightarrow> bool" where
  "call_ready env Mutable (Fut f) = (wait_for_0s env f = ready_status)"
| "call_ready env Mutable (Fut_ref f) = (wait_for_0s env f = ready_status)"
| "call_ready env Const (Fut f) = True"
| "call_ready env Const (Fut_ref f) = True"
| "call_ready env c (Plain v) = True"
| "call_ready env c (Plain_ref v) = True"

text \<open>
  Modelled from the spec: \<^verbatim>\<open>nonstd::check_all_true\<close>, declared in a header of
  \<^verbatim>\<open>common/nonstd\<close> that is not among the sources; by the specification of \<^verbatim>\<open>ready ()\<close> the
  result is true iff every argument is.
\<close>

fun check_all_true :: "bool list \<Rightarrow> bool" where
  "check_all_true [] = True"
| "check_all_true (b # bs) = (b \<and> check_all_true bs)"

text \<open>
  \<^verbatim>\<open>do_ready_\<close> is a \<^verbatim>\<open>const\<close> member function, so inside it \<^verbatim>\<open>_args\<close> is a const tuple:
  \<^verbatim>\<open>std::get <I> (_args)\<close> is a const lvalue for an element held by value and a
  non-const lvalue for an element of reference type.
\<close>

definition do_ready :: "bound_arg list \<Rightarrow> env \<Rightarrow> bool" where
  "do_ready args env = check_all_true (map (\<lambda>a. call_ready env (element_cv Const a) a) args)"

fun invoke_model :: "task_concept \<Rightarrow> env \<Rightarrow> abort + env" where
  "invoke_model (ready_task_model p args) env = packaged_task_call p args env"
| "invoke_model (awaitable_task_model p args) env = do_invoke p args env"

fun ready_model :: "task_concept \<Rightarrow> env \<Rightarrow> bool" where
  "ready_model (ready_task_model p args) env = True"
| "ready_model (awaitable_task_model p args) env = do_ready args env"

text \<open>\<^verbatim>\<open>awaitable_task::operator() ()\<close> and \<^verbatim>\<open>awaitable_task::ready ()\<close>.\<close>

definition invoke :: "awaitable_task \<Rightarrow> env \<Rightarrow> abort + env" where
  "invoke t env = (case t of Some m \<Rightarrow> invoke_model m env | None \<Rightarrow> Inl bad_task_access)"

definition ready :: "awaitable_task \<Rightarrow> env \<Rightarrow> abort + bool" where
  "ready t env = (case t of Some m \<Rightarrow> Inr (ready_model m env) | None \<Rightarrow> Inl bad_task_access)"

section \<open>\<^verbatim>\<open>std::forward_list\<close> and its iterators\<close>

text \<open>
  A singly linked list is the sequence of its nodes, each with an identity (its
  address) and the task it holds. An iterator is a node's identity or the end
  iterator; \<^verbatim>\<open>begin ()\<close> of an empty list is the end iterator. Iterators stay with
  their node when nodes move between lists. What the standard requires of an
  iterator argument is checked, and a violated requirement is \<open>undefined_behaviour\<close>.
\<close>

type_synonym node = nat

datatype iterator_type = Node node | End

type_synonym forward_list = "(node \<times> awaitable_task) list"

definition fl_begin :: "forward_list \<Rightarrow> iterator_type" where
  "fl_begin l = (case l of [] \<Rightarrow> End | x # _ \<Rightarrow> Node (fst x))"

text \<open>\<^verbatim>\<open>*it\<close> and \<^verbatim>\<open>it->\<close>: the iterator must designate a node of the list.\<close>

definition fl_deref :: "forward_list \<Rightarrow> iterator_type \<Rightarrow> abort + awaitable_task" where
  "fl_deref l it = (case it of
       End \<Rightarrow> Inl undefined_behaviour
     | Node n \<Rightarrow> (case map_of l n of None \<Rightarrow> Inl undefined_behaviour | Some t \<Rightarrow> Inr t))"

fun node_after :: "node \<Rightarrow> forward_list \<Rightarrow> abort + iterator_type" where
  "node_after n [] = Inl undefined_behaviour"
| "node_after n (x # l) = (if fst x = n then Inr (fl_begin l) else node_after n l)"

text \<open>
  \<^verbatim>\<open>it++\<close>: the iterator that follows. The nodes of a list have pairwise different
  addresses; a sequence that repeats one is no list.
\<close>

definition fl_next :: "forward_list \<Rightarrow> iterator_type \<Rightarrow> abort + iterator_type" where
  "fl_next l it = (case it of
       End \<Rightarrow> Inl undefined_behaviour
     | Node n \<Rightarrow> if distinct (map fst l) then node_after n l else Inl undefined_behaviour)"

text \<open>The allocator hands out an address that no node of the list has.\<close>

definition fresh_node :: "forward_list \<Rightarrow> node" where
  "fresh_node l = fold (\<lambda>x m. max (Suc (fst x)) m) l 0"

fun insert_after :: "node \<Rightarrow> forward_list \<Rightarrow> forward_list \<Rightarrow> forward_list option" where
  "insert_after n xs [] = None"
| "insert_after n xs (y # ys) =
     (if fst y = n then Some (y # xs @ ys) else map_option (Cons y) (insert_after n xs ys))"

definition fl_emplace_front :: "forward_list \<Rightarrow> awaitable_task \<Rightarrow> forward_list" where
  "fl_emplace_front l t = (fresh_node l, t) # l"

text \<open>\<^verbatim>\<open>emplace_after (pos, t)\<close>: the new list and the iterator to the new node.\<close>

definition fl_emplace_after ::
  "forward_list \<Rightarrow> iterator_type \<Rightarrow> awaitable_task \<Rightarrow> abort + forward_list \<times> iterator_type" where
  "fl_emplace_after l pos t = (case pos of
       End \<Rightarrow> Inl undefined_behaviour
     | Node n \<Rightarrow> (case insert_after n [(fresh_node l, t)] l of
                    None \<Rightarrow> Inl undefined_behaviour
                  | Some l' \<Rightarrow> Inr (l', Node (fresh_node l))))"

text \<open>
  \<^verbatim>\<open>this.splice_after (pos, other)\<close>: all nodes of \<open>other\<close> move behind \<open>pos\<close>, which
  must be dereferenceable in \<open>this\<close> (\<^verbatim>\<open>before_begin ()\<close>, the other legal position, is
  never passed in this header). The result is the pair of \<open>this\<close> and \<open>other\<close>.
\<close>

definition fl_splice_after ::
  "forward_list \<Rightarrow> iterator_type \<Rightarrow> forward_list \<Rightarrow> abort + forward_list \<times> forward_list" where
  "fl_splice_after this pos other = (case pos of
       End \<Rightarrow> Inl undefined_behaviour
     | Node n \<Rightarrow> (case insert_after n other this of
                    None \<Rightarrow> Inl undefined_behaviour
                  | Some l \<Rightarrow> Inr (l, [])))"

text \<open>
  \<^verbatim>\<open>this.splice_after (pos, other, first, last)\<close>: the nodes strictly between \<open>first\<close>
  and \<open>last\<close> of \<open>other\<close> move behind \<open>pos\<close>. \<open>open_range first last other\<close> splits
  \<open>other\<close> into what stays up to and including \<open>first\<close>, what moves, and what stays
  from \<open>last\<close> on.
\<close>

fun upto_last :: "iterator_type \<Rightarrow> forward_list \<Rightarrow> (forward_list \<times> forward_list) option" where
  "upto_last End [] = Some ([], [])"
| "upto_last (Node n) [] = None"
| "upto_last it (x # l) =
     (if it = Node (fst x) then Some ([], x # l)
      else map_option (\<lambda>(mid, rest). (x # mid, rest)) (upto_last it l))"

fun open_range ::
  "node \<Rightarrow> iterator_type \<Rightarrow> forward_list \<Rightarrow> (forward_list \<times> forward_list \<times> forward_list) option" where
  "open_range f it [] = None"
| "open_range f it (x # l) =
     (if fst x = f then map_option (\<lambda>(mid, rest). ([x], mid, rest)) (upto_last it l)
      else map_option (\<lambda>(pre, mid, rest). (x # pre, mid, rest)) (open_range f it l))"

definition fl_splice_after_range ::
  "forward_list \<Rightarrow> iterator_type \<Rightarrow> forward_list \<Rightarrow> iterator_type \<Rightarrow> iterator_type
     \<Rightarrow> abort + forward_list \<times> forward_list" where
  "fl_splice_after_range this pos other first lst = (case (pos, first) of
       (Node n, Node f) \<Rightarrow> (case open_range f lst other of
            None \<Rightarrow> Inl undefined_behaviour
          | Some (pre, mid, rest) \<Rightarrow> (case insert_after n mid this of
               None \<Rightarrow> Inl undefined_behaviour
             | Some l \<Rightarrow> Inr (l, pre @ rest)))
     | _ \<Rightarrow> Inl undefined_behaviour)"

text \<open>\<^verbatim>\<open>erase_after (pos)\<close>: the node behind \<open>pos\<close> is removed; there must be one.\<close>

fun remove_after :: "node \<Rightarrow> forward_list \<Rightarrow> forward_list option" where
  "remove_after n [] = None"
| "remove_after n [x] = None"
| "remove_after n (x # y # l) =
     (if fst x = n then Some (x # l) else map_option (Cons x) (remove_after n (y # l)))"

definition fl_erase_after :: "forward_list \<Rightarrow> iterator_type \<Rightarrow> abort + forward_list" where
  "fl_erase_after l pos = (case pos of
       End \<Rightarrow> Inl undefined_behaviour
     | Node n \<Rightarrow> (case remove_after n l of None \<Rightarrow> Inl undefined_behaviour | Some l' \<Rightarrow> Inr l'))"

text \<open>\<^verbatim>\<open>front ()\<close> followed by \<^verbatim>\<open>pop_front ()\<close>, on a list that must not be empty.\<close>

definition fl_take_front :: "forward_list \<Rightarrow> abort + awaitable_task \<times> forward_list" where
  "fl_take_front l = (case l of [] \<Rightarrow> Inl undefined_behaviour | x # l' \<Rightarrow> Inr (snd x, l'))"

section \<open>The task queue: \<^verbatim>\<open>awaitable_task_system::task_queue\<close>\<close>

text \<open>
  The fields \<^verbatim>\<open>tasks_\<close>, \<^verbatim>\<open>last_\<close> and \<^verbatim>\<open>done_\<close>. The mutex and the condition variable
  have no state of their own in a sequential run: whether a \<^verbatim>\<open>try_to_lock\<close> succeeds
  is an argument of the operation, and a wait on the condition variable that nothing
  can end is \<open>blocks_forever\<close>.
\<close>

record task_queue =
  q_tasks :: forward_list
  q_last :: iterator_type
  q_done :: bool

text \<open>\<^verbatim>\<open>task_queue ()\<close>: no tasks; \<^verbatim>\<open>last_\<close> is not initialised, its value is never read.\<close>

definition task_queue_new :: task_queue where
  "task_queue_new = \<lparr>q_tasks = [], q_last = End, q_done = False\<rparr>"

definition set_done :: "task_queue \<Rightarrow> task_queue" where
  "set_done q = q\<lparr>q_done := True\<rparr>"

text \<open>\<^verbatim>\<open>rotate_with_\<close>: "rotates the first element of the list onto the end".\<close>

definition rotate_with :: "task_queue \<Rightarrow> forward_list \<Rightarrow> abort + task_queue \<times> forward_list" where
  "rotate_with q side_buf =
     (if q_tasks q = [] \<or> q_last q = fl_begin (q_tasks q) then Inr (q, side_buf)
      else
        then_do (fl_splice_after side_buf (fl_begin side_buf) (q_tasks q)) (\<lambda>(side_buf1, tasks1).
        then_do (fl_splice_after_range tasks1 (fl_begin tasks1) side_buf1 (fl_begin side_buf1) End)
          (\<lambda>(tasks2, side_buf2).
        let new_last = fl_begin side_buf2 in
        then_do (fl_splice_after tasks2 (q_last q) side_buf2) (\<lambda>(tasks3, side_buf3).
        Inr (q\<lparr>q_tasks := tasks3, q_last := new_last\<rparr>, side_buf3)))))"

text \<open>
  \<^verbatim>\<open>try_pop\<close> and \<^verbatim>\<open>try_push\<close>; \<open>locked\<close> tells whether \<^verbatim>\<open>std::try_to_lock\<close> got the mutex.
  The body shared by \<^verbatim>\<open>try_push\<close> and \<^verbatim>\<open>push\<close> is \<open>append_task\<close>.
\<close>

definition try_pop :: "task_queue \<Rightarrow> bool \<Rightarrow> (bool \<times> awaitable_task) \<times> task_queue" where
  "try_pop q locked =
     (if \<not> locked \<or> q_tasks q = [] then ((False, None), q)
      else ((True, snd (hd (q_tasks q))), q\<lparr>q_tasks := tl (q_tasks q)\<rparr>))"

definition append_task :: "task_queue \<Rightarrow> awaitable_task \<Rightarrow> abort + task_queue" where
  "append_task q t =
     (if q_tasks q = []
      then let l = fl_emplace_front (q_tasks q) t in Inr (q\<lparr>q_tasks := l, q_last := fl_begin l\<rparr>)
      else then_do (fl_emplace_after (q_tasks q) (q_last q) t) (\<lambda>(l, it).
           Inr (q\<lparr>q_tasks := l, q_last := it\<rparr>)))"

definition try_push :: "task_queue \<Rightarrow> awaitable_task \<Rightarrow> bool \<Rightarrow> abort + bool \<times> task_queue" where
  "try_push q t locked =
     (if \<not> locked then Inr (False, q)
      else then_do (append_task q t) (\<lambda>q'. Inr (True, q')))"

definition push :: "task_queue \<Rightarrow> awaitable_task \<Rightarrow> abort + task_queue" where
  "push q t = append_task q t"

subsection \<open>The scan of \<^verbatim>\<open>pop\<close> ends\<close>

lemma then_do_simps [simp]:
  "then_do (Inl e) k = Inl e" "then_do (Inr a) k = k a"
  by (simp_all add: then_do_def)

lemma then_do_Inl_iff:
  "then_do r k = Inl e \<longleftrightarrow> r = Inl e \<or> (\<exists>a. r = Inr a \<and> k a = Inl e)"
  by (cases r) simp_all

lemma then_do_Inr_iff: "then_do r k = Inr b \<longleftrightarrow> (\<exists>a. r = Inr a \<and> k a = Inr b)"
  by (cases r) simp_all

lemma fl_begin_simps [simp]:
  "fl_begin [] = End" "fl_begin (x # l) = Node (fst x)"
  by (simp_all add: fl_begin_def)

lemma fl_splice_after_End [simp]: "fl_splice_after this End other = Inl undefined_behaviour"
  by (simp add: fl_splice_after_def)

lemma fl_splice_after_empties: "fl_splice_after this pos other = Inr r \<Longrightarrow> snd r = []"
  by (auto simp: fl_splice_after_def split: iterator_type.splits option.splits)

lemma fl_splice_after_range_End [simp]:
  "fl_splice_after_range this End other first lst = Inl undefined_behaviour"
  by (simp add: fl_splice_after_range_def)

text \<open>
  Beyond its guard \<^verbatim>\<open>rotate_with_\<close> has no defined behaviour: an empty \<open>side_buf\<close> has
  no node to splice behind, and a non-empty one takes every node of \<^verbatim>\<open>tasks_\<close>, whose
  \<^verbatim>\<open>begin ()\<close> is then the end iterator and is the next splice position.
\<close>

lemma rotate_with_undefined:
  assumes "q_tasks q \<noteq> []" and "q_last q \<noteq> fl_begin (q_tasks q)"
  shows "rotate_with q side_buf = Inl undefined_behaviour"
proof (cases "fl_splice_after side_buf (fl_begin side_buf) (q_tasks q)")
  case (Inl e)
  then have "e = undefined_behaviour"
    by (auto simp: fl_splice_after_def split: iterator_type.splits option.splits)
  with Inl assms show ?thesis by (simp add: rotate_with_def)
next
  case (Inr p)
  then have "snd p = []" by (rule fl_splice_after_empties)
  then obtain s1 where "p = (s1, [])" by (cases p) simp
  with Inr assms show ?thesis by (simp add: rotate_with_def)
qed

lemma rotate_with_returns:
  assumes "rotate_with q side_buf = Inr r"
  shows "r = (q, side_buf) \<and> (q_tasks q = [] \<or> q_last q = fl_begin (q_tasks q))"
proof (cases "q_tasks q = [] \<or> q_last q = fl_begin (q_tasks q)")
  case True
  with assms show ?thesis by (auto simp: rotate_with_def)
next
  case False
  then have "rotate_with q side_buf = Inl undefined_behaviour"
    by (simp add: rotate_with_undefined)
  with assms show ?thesis by simp
qed

definition remaining :: "forward_list \<Rightarrow> iterator_type \<Rightarrow> nat" where
  "remaining l it = (case it of End \<Rightarrow> 0 | Node n \<Rightarrow> length (dropWhile (\<lambda>x. fst x \<noteq> n) l))"

lemma node_after_mem: "node_after n l = Inr (Node m) \<Longrightarrow> m \<in> fst ` set l"
  by (induction l) (auto split: if_splits list.splits simp: fl_begin_def)

lemma node_after_remaining:
  "distinct (map fst l) \<Longrightarrow> node_after n l = Inr it \<Longrightarrow> remaining l it < remaining l (Node n)"
proof (induction l)
  case Nil
  then show ?case by simp
next
  case (Cons x l)
  show ?case
  proof (cases "fst x = n")
    case True
    with Cons.prems show ?thesis
      by (cases l) (auto simp: remaining_def)
  next
    case False
    with Cons.prems have na: "node_after n l = Inr it" by simp
    from Cons.prems have d: "distinct (map fst l)" by simp
    have IH: "remaining l it < remaining l (Node n)" using Cons.IH [OF d na] .
    show ?thesis
    proof (cases it)
      case End
      with IH False show ?thesis by (simp add: remaining_def)
    next
      case (Node m)
      with na have "m \<in> fst ` set l" by (simp add: node_after_mem)
      with Cons.prems have "fst x \<noteq> m" by auto
      with IH False Node show ?thesis by (simp add: remaining_def)
    qed
  qed
qed

lemma fl_next_remaining: "fl_next l it = Inr it' \<Longrightarrow> remaining l it' < remaining l it"
  by (cases it) (auto simp: fl_next_def node_after_remaining split: if_splits)

subsection \<open>\<^verbatim>\<open>pop\<close>\<close>

text \<open>
  The \<^verbatim>\<open>for\<close> loop of \<^verbatim>\<open>pop\<close>, entered after \<^verbatim>\<open>lag = iter++\<close>. It ends by a
  \<^verbatim>\<open>return\<close> from \<^verbatim>\<open>pop\<close> (\<open>Found\<close>) or when \<^verbatim>\<open>lag\<close> meets \<^verbatim>\<open>old_last\<close> (\<open>Exhausted\<close>).
\<close>

datatype scan_result = Found awaitable_task task_queue | Exhausted task_queue

function scan ::
  "task_queue \<Rightarrow> forward_list \<Rightarrow> env \<Rightarrow> iterator_type \<Rightarrow> iterator_type \<Rightarrow> iterator_type
     \<Rightarrow> abort + scan_result" where
  "scan q side_buf env old_last lag iter =
     (if lag = old_last then Inr (Exhausted q)
      else case fl_deref (q_tasks q) iter of Inl e \<Rightarrow> Inl e | Inr t \<Rightarrow>
           (case ready t env of Inl e \<Rightarrow> Inl e | Inr r \<Rightarrow>
              if r
              then (case fl_erase_after (q_tasks q) lag of Inl e \<Rightarrow> Inl e | Inr l \<Rightarrow>
                      Inr (Found t (q\<lparr>q_last := (if q_last q = iter then lag else q_last q),
                                      q_tasks := l\<rparr>)))
              else (case rotate_with q side_buf of Inl e \<Rightarrow> Inl e | Inr (q', side_buf') \<Rightarrow>
                     (case fl_next (q_tasks q') iter of Inl e \<Rightarrow> Inl e | Inr iter' \<Rightarrow>
                        scan q' side_buf' env old_last iter iter'))))"
  by pat_completeness auto
termination
proof (relation "measure (\<lambda>(q, side_buf, env, old_last, lag, iter). remaining (q_tasks q) iter)")
  show "wf (measure (\<lambda>(q, side_buf, env, old_last, lag, iter). remaining (q_tasks q) iter))"
    by simp
next
  fix q :: task_queue and side_buf :: forward_list and env :: env
    and old_last lag iter :: iterator_type and q' side_buf' iter' x2
  assume "rotate_with q side_buf = Inr x2" and "(q', side_buf') = x2"
    and "fl_next (q_tasks q') iter = Inr iter'"
  then show "((q', side_buf', env, old_last, iter, iter'), (q, side_buf, env, old_last, lag, iter))
      \<in> measure (\<lambda>(q, side_buf, env, old_last, lag, iter). remaining (q_tasks q) iter)"
    using rotate_with_returns [of q side_buf x2] fl_next_remaining [of "q_tasks q'" iter iter']
    by auto
qed

declare scan.simps [simp del]

text \<open>
  \<^verbatim>\<open>while (!t.ready ()) std::this_thread::yield ();\<close> after the mutex is released: in a
  sequential run nothing resolves a future, so a task that is not ready stays so.
\<close>

definition spin_yield :: "awaitable_task \<Rightarrow> env \<Rightarrow> abort + unit" where
  "spin_yield t env = then_do (ready t env) (\<lambda>r. if r then Inr () else Inl blocks_forever)"

definition pop :: "task_queue \<Rightarrow> env \<Rightarrow> abort + (bool \<times> awaitable_task) \<times> task_queue" where
  "pop q env =
     (if q_tasks q = [] \<and> \<not> q_done q then Inl blocks_forever
      else if q_tasks q = [] then Inr ((False, None), q)
      else
        let iter = fl_begin (q_tasks q); old_last = q_last q; side_buf = [] in
        then_do (fl_deref (q_tasks q) iter) (\<lambda>head.
        then_do (ready head env) (\<lambda>r.
          if r
          then then_do (fl_take_front (q_tasks q)) (\<lambda>(t, l). Inr ((True, head), q\<lparr>q_tasks := l\<rparr>))
          else
            then_do (rotate_with q side_buf) (\<lambda>(q1, side_buf1).
            then_do (fl_next (q_tasks q1) iter) (\<lambda>iter1.
            then_do (scan q1 side_buf1 env old_last iter iter1) (\<lambda>res.
              case res of
                Found t q2 \<Rightarrow> Inr ((True, t), q2)
              | Exhausted q2 \<Rightarrow>
                  then_do (fl_take_front (q_tasks q2)) (\<lambda>(t, l).
                  then_do (spin_yield t env) (\<lambda>u. Inr ((True, t), q2\<lparr>q_tasks := l\<rparr>)))))))))"

section \<open>The task system: \<^verbatim>\<open>awaitable_task_system\<close>\<close>

type_synonym size_t = "64 word"

text \<open>
  The fields \<^verbatim>\<open>queues_\<close>, \<^verbatim>\<open>threads_\<close>, \<^verbatim>\<open>nthreads_\<close> and \<^verbatim>\<open>current_index_\<close>. A thread
  is recorded by the argument its \<^verbatim>\<open>run\<close> was started with.
\<close>

record awaitable_task_system =
  queues :: "task_queue list"
  threads :: "size_t list"
  nthreads :: size_t
  current_index :: size_t

text \<open>
  The constructor: one queue for the main thread, then one queue and one thread for
  every \<^verbatim>\<open>th\<close> with \<^verbatim>\<open>1 <= th < nthreads + 1\<close>, the bound computed in \<^verbatim>\<open>std::size_t\<close>.
\<close>

definition awaitable_task_system_new :: "size_t \<Rightarrow> awaitable_task_system" where
  "awaitable_task_system_new n =
     \<lparr>queues = task_queue_new # map (\<lambda>th. task_queue_new) [1..<unat (n + 1)],
      threads = map of_nat [1..<unat (n + 1)],
      nthreads = n,
      current_index = 1\<rparr>"

definition done_all :: "awaitable_task_system \<Rightarrow> awaitable_task_system" where
  "done_all sys = sys\<lparr>queues := map set_done (queues sys)\<rparr>"

definition get_thread_queue_idx :: "awaitable_task_system \<Rightarrow> size_t \<Rightarrow> size_t \<Rightarrow> abort + size_t" where
  "get_thread_queue_idx sys idx seed =
     (if nthreads sys = 0 then Inl division_by_zero
      else Inr ((idx + seed) mod nthreads sys + 1))"

definition get_main_thread_queue_idx :: size_t where
  "get_main_thread_queue_idx = 0"

text \<open>\<^verbatim>\<open>queues_ [i]\<close>, read and written; \<^verbatim>\<open>operator[]\<close> beyond the size is undefined.\<close>

definition queue_at :: "awaitable_task_system \<Rightarrow> size_t \<Rightarrow> abort + task_queue" where
  "queue_at sys i =
     (if unat i < length (queues sys) then Inr (queues sys ! unat i) else Inl undefined_behaviour)"

definition queue_upd :: "awaitable_task_system \<Rightarrow> size_t \<Rightarrow> task_queue \<Rightarrow> awaitable_task_system" where
  "queue_upd sys i q = sys\<lparr>queues := (queues sys)[unat i := q]\<rparr>"

text \<open>
  The submission loop over the worker queues, written three times in the header
  (\<^verbatim>\<open>push_ready\<close> and both \<^verbatim>\<open>push_awaitable\<close>) with the same text: for each \<open>k\<close>,
  \<^verbatim>\<open>try_push\<close> on queue \<^verbatim>\<open>get_thread_queue_idx (idx, k)\<close>, returning at the first success
  (\<open>Some\<close>). \<open>locks k\<close> tells whether attempt \<open>k\<close> got the mutex.
\<close>

fun ring_try_push ::
  "awaitable_task_system \<Rightarrow> awaitable_task \<Rightarrow> size_t \<Rightarrow> (nat \<Rightarrow> bool) \<Rightarrow> nat list
     \<Rightarrow> abort + awaitable_task_system option" where
  "ring_try_push sys t idx locks [] = Inr None"
| "ring_try_push sys t idx locks (k # ks) =
     then_do (get_thread_queue_idx sys idx (of_nat k)) (\<lambda>queue_index.
     then_do (queue_at sys queue_index) (\<lambda>q.
     then_do (try_push q t (locks k)) (\<lambda>(ok, q').
       if ok then Inr (Some (queue_upd sys queue_index q'))
       else ring_try_push sys t idx locks ks)))"

text \<open>
  \<^verbatim>\<open>auto const idx = current_index_++\<close>, the loop for \<^verbatim>\<open>k < 10 * nthreads_\<close>, and the
  blocking \<^verbatim>\<open>push\<close> on queue \<^verbatim>\<open>get_thread_queue_idx (idx)\<close> when every attempt failed.
\<close>

definition submit_to_workers ::
  "awaitable_task_system \<Rightarrow> awaitable_task \<Rightarrow> (nat \<Rightarrow> bool) \<Rightarrow> abort + awaitable_task_system" where
  "submit_to_workers sys t locks =
     (let idx = current_index sys;
          sys1 = sys\<lparr>current_index := current_index sys + 1\<rparr>
      in then_do (ring_try_push sys1 t idx locks [0..<unat (10 * nthreads sys1)]) (\<lambda>r.
           case r of
             Some sys2 \<Rightarrow> Inr sys2
           | None \<Rightarrow>
               then_do (get_thread_queue_idx sys1 idx 0) (\<lambda>queue_index.
               then_do (queue_at sys1 queue_index) (\<lambda>q.
               then_do (push q t) (\<lambda>q'. Inr (queue_upd sys1 queue_index q'))))))"

text \<open>The same towards the main queue: the attempts \<open>ks\<close>, then the blocking \<^verbatim>\<open>push\<close>.\<close>

fun main_try_push ::
  "awaitable_task_system \<Rightarrow> awaitable_task \<Rightarrow> (nat \<Rightarrow> bool) \<Rightarrow> nat list
     \<Rightarrow> abort + awaitable_task_system option" where
  "main_try_push sys t locks [] = Inr None"
| "main_try_push sys t locks (k # ks) =
     then_do (queue_at sys get_main_thread_queue_idx) (\<lambda>q.
     then_do (try_push q t (locks k)) (\<lambda>(ok, q').
       if ok then Inr (Some (queue_upd sys get_main_thread_queue_idx q'))
       else main_try_push sys t locks ks))"

definition submit_to_main ::
  "awaitable_task_system \<Rightarrow> awaitable_task \<Rightarrow> (nat \<Rightarrow> bool) \<Rightarrow> nat list
     \<Rightarrow> abort + awaitable_task_system" where
  "submit_to_main sys t locks ks =
     then_do (main_try_push sys t locks ks) (\<lambda>r.
       case r of
         Some sys1 \<Rightarrow> Inr sys1
       | None \<Rightarrow>
           then_do (queue_at sys get_main_thread_queue_idx) (\<lambda>q.
           then_do (push q t) (\<lambda>q'. Inr (queue_upd sys get_main_thread_queue_idx q'))))"

definition push_ready_on_main ::
  "awaitable_task_system \<Rightarrow> callable \<Rightarrow> call_arg list \<Rightarrow> fut_id \<Rightarrow> (nat \<Rightarrow> bool)
     \<Rightarrow> abort + awaitable_task_system \<times> fut_id" where
  "push_ready_on_main sys f args out locks =
     (let t = make_ready_task f args out
      in then_do (submit_to_main sys (fst t) locks [0..<unat (10 * nthreads sys)]) (\<lambda>sys'.
         Inr (sys', snd t)))"

definition push_awaitable_on_main ::
  "awaitable_task_system \<Rightarrow> callable \<Rightarrow> bound_arg list \<Rightarrow> fut_id \<Rightarrow> (nat \<Rightarrow> bool)
     \<Rightarrow> abort + awaitable_task_system \<times> fut_id" where
  "push_awaitable_on_main sys f args out locks =
     (let t = make_awaitable_task f args out
      in then_do (submit_to_main sys (fst t) locks [0..<10]) (\<lambda>sys'. Inr (sys', snd t)))"

text \<open>The overload \<^verbatim>\<open>push_awaitable_on_main (awaitable_task && t)\<close>.\<close>

definition push_awaitable_task_on_main ::
  "awaitable_task_system \<Rightarrow> awaitable_task \<Rightarrow> (nat \<Rightarrow> bool) \<Rightarrow> abort + awaitable_task_system" where
  "push_awaitable_task_on_main sys t locks = submit_to_main sys t locks [0..<10]"

definition push_ready ::
  "awaitable_task_system \<Rightarrow> callable \<Rightarrow> call_arg list \<Rightarrow> fut_id \<Rightarrow> (nat \<Rightarrow> bool)
     \<Rightarrow> abort + awaitable_task_system \<times> fut_id" where
  "push_ready sys f args out locks =
     (if nthreads sys = 0 then push_ready_on_main sys f args out locks
      else
        let t = make_ready_task f args out
        in then_do (submit_to_workers sys (fst t) locks) (\<lambda>sys'. Inr (sys', snd t)))"

definition push_awaitable ::
  "awaitable_task_system \<Rightarrow> callable \<Rightarrow> bound_arg list \<Rightarrow> fut_id \<Rightarrow> (nat \<Rightarrow> bool)
     \<Rightarrow> abort + awaitable_task_system \<times> fut_id" where
  "push_awaitable sys f args out locks =
     (if nthreads sys = 0 then push_awaitable_on_main sys f args out locks
      else
        let t = make_awaitable_task f args out
        in then_do (submit_to_workers sys (fst t) locks) (\<lambda>sys'. Inr (sys', snd t)))"

text \<open>The overload \<^verbatim>\<open>push_awaitable (awaitable_task && t)\<close>.\<close>

definition push_awaitable_task ::
  "awaitable_task_system \<Rightarrow> awaitable_task \<Rightarrow> (nat \<Rightarrow> bool) \<Rightarrow> abort + awaitable_task_system" where
  "push_awaitable_task sys t locks =
     (if nthreads sys = 0 then push_awaitable_task_on_main sys t locks
      else submit_to_workers sys t locks)"

text \<open>
  \<^verbatim>\<open>run_on_main\<close>: up to ten \<^verbatim>\<open>try_pop\<close> on queue 0, then the blocking \<^verbatim>\<open>pop\<close>, then the
  task is invoked. The result lists the tasks that were invoked.
\<close>

fun main_try_pop ::
  "task_queue \<Rightarrow> (nat \<Rightarrow> bool) \<Rightarrow> nat list \<Rightarrow> (bool \<times> awaitable_task) \<times> task_queue" where
  "main_try_pop q locks [] = ((False, None), q)"
| "main_try_pop q locks (k # ks) =
     (let r = try_pop q (locks k)
      in if fst (fst r) then r else main_try_pop (snd r) locks ks)"

definition run_on_main ::
  "awaitable_task_system \<Rightarrow> env \<Rightarrow> (nat \<Rightarrow> bool)
     \<Rightarrow> abort + awaitable_task_system \<times> env \<times> awaitable_task list" where
  "run_on_main sys env locks =
     then_do (queue_at sys get_main_thread_queue_idx) (\<lambda>q.
     let r = main_try_pop q locks [0..<10] in
     then_do (if \<not> fst (fst r) then pop (snd r) env else Inr r) (\<lambda>(p, q').
       if \<not> fst p then Inr (queue_upd sys get_main_thread_queue_idx q', env, [])
       else then_do (invoke (snd p) env) (\<lambda>env'.
            Inr (queue_upd sys get_main_thread_queue_idx q', env', [snd p]))))"

text \<open>
  The worker: one round of \<^verbatim>\<open>while (true)\<close> in \<^verbatim>\<open>run (idx)\<close> probes the ring of worker
  queues with \<^verbatim>\<open>try_pop\<close>, falls back to the blocking \<^verbatim>\<open>pop\<close> on queue \<open>idx\<close>, and
  invokes what it got; the flag of the result tells whether the loop goes on.
\<close>

fun ring_try_pop ::
  "awaitable_task_system \<Rightarrow> size_t \<Rightarrow> (nat \<Rightarrow> bool) \<Rightarrow> nat list
     \<Rightarrow> abort + (bool \<times> awaitable_task) \<times> awaitable_task_system" where
  "ring_try_pop sys idx locks [] = Inr ((False, None), sys)"
| "ring_try_pop sys idx locks (k # ks) =
     then_do (get_thread_queue_idx sys idx (of_nat k)) (\<lambda>queue_index.
     then_do (queue_at sys queue_index) (\<lambda>q.
       let r = try_pop q (locks k)
       in if fst (fst r) then Inr (fst r, queue_upd sys queue_index (snd r))
          else ring_try_pop (queue_upd sys queue_index (snd r)) idx locks ks))"

definition run_round ::
  "awaitable_task_system \<Rightarrow> env \<Rightarrow> size_t \<Rightarrow> (nat \<Rightarrow> bool)
     \<Rightarrow> abort + bool \<times> awaitable_task_system \<times> env" where
  "run_round sys env idx locks =
     then_do (ring_try_pop sys idx locks [0..<unat (10 * nthreads sys)]) (\<lambda>(p, sys1).
     then_do (if \<not> fst p
              then then_do (queue_at sys1 idx) (\<lambda>q.
                   then_do (pop q env) (\<lambda>(p', q'). Inr (p', queue_upd sys1 idx q')))
              else Inr (p, sys1)) (\<lambda>(p2, sys2).
       if \<not> fst p2 then Inr (False, sys2, env)
       else then_do (invoke (snd p2) env) (\<lambda>env'. Inr (True, sys2, env'))))"

text \<open>
  \<^verbatim>\<open>run (idx)\<close>: the rounds one after the other, round \<open>n\<close> with the lock outcomes
  \<open>locks n\<close>. The loop has no bound, so \<open>None\<close> stands for a worker that never leaves it.
\<close>

partial_function (option) run ::
  "awaitable_task_system \<Rightarrow> env \<Rightarrow> size_t \<Rightarrow> (nat \<Rightarrow> nat \<Rightarrow> bool) \<Rightarrow> nat
     \<Rightarrow> (abort + awaitable_task_system \<times> env) option" where
  "run sys env idx locks n =
     (case run_round sys env idx (locks n) of
        Inl e \<Rightarrow> Some (Inl e)
      | Inr r \<Rightarrow>
          if fst r then run (fst (snd r)) (snd (snd r)) idx locks (Suc n)
          else Some (Inr (snd r)))"

section \<open>Well-formed queues\<close>

text \<open>
  The data invariant of a queue: the nodes are pairwise distinct and, when there is a
  task, the tail cursor designates the last node. \<open>with_task q t\<close> is \<open>q\<close> with the
  task \<open>t\<close> in a new node behind the last one.
\<close>

definition queue_ok :: "task_queue \<Rightarrow> bool" where
  "queue_ok q \<longleftrightarrow> distinct (map fst (q_tasks q))
     \<and> (q_tasks q = [] \<or> q_last q = Node (fst (last (q_tasks q))))"

definition with_task :: "task_queue \<Rightarrow> awaitable_task \<Rightarrow> task_queue" where
  "with_task q t = q\<lparr>q_tasks := q_tasks q @ [(fresh_node (q_tasks q), t)],
                     q_last := Node (fresh_node (q_tasks q))\<rparr>"

text \<open>
  A well-formed system has the \<open>N + 1\<close> queues its constructor made, each well formed.
  \<open>main_enqueued\<close> and \<open>worker_enqueued\<close> are the system after a task was appended to
  queue 0, or to queue \<open>i\<close> with the dispatch counter advanced by one.
  \<open>ring_queue sys k\<close> follows the words of the specification: with \<open>idx\<close> the
  dispatch counter, attempt \<open>k\<close> goes to queue \<open>((idx + k) mod N) + 1\<close>, in the
  arithmetic of \<^verbatim>\<open>std::size_t\<close>.
\<close>

definition system_ok :: "awaitable_task_system \<Rightarrow> bool" where
  "system_ok sys \<longleftrightarrow> length (queues sys) = unat (nthreads sys) + 1
     \<and> list_all queue_ok (queues sys)"

definition main_enqueued :: "awaitable_task_system \<Rightarrow> awaitable_task \<Rightarrow> awaitable_task_system" where
  "main_enqueued sys t = sys\<lparr>queues := (queues sys)[0 := with_task (queues sys ! 0) t]\<rparr>"

definition worker_enqueued ::
  "awaitable_task_system \<Rightarrow> size_t \<Rightarrow> awaitable_task \<Rightarrow> awaitable_task_system" where
  "worker_enqueued sys i t =
     sys\<lparr>current_index := current_index sys + 1,
         queues := (queues sys)[unat i := with_task (queues sys ! unat i) t]\<rparr>"

definition ring_queue :: "awaitable_task_system \<Rightarrow> nat \<Rightarrow> size_t" where
  "ring_queue sys k = (current_index sys + of_nat k) mod nthreads sys + 1"

section \<open>Example inputs\<close>

text \<open>An environment in which no promise has been fulfilled yet, and two callables.\<close>

definition no_future_resolved :: env where
  "no_future_resolved = (\<lambda>f. Pending)"

definition identity_callable :: callable where
  "identity_callable env vs = (case vs of Value v # _ \<Rightarrow> Inr v | _ \<Rightarrow> Inl ''no value'')"

definition constant_callable :: "val \<Rightarrow> callable" where
  "constant_callable v env vs = Inr v"

text \<open>
  A task that was handed future 0 by \<^verbatim>\<open>std::move\<close>, a task that was handed the
  caller's future 0 as an lvalue, a task without arguments that returns 7, queues of
  two of them, and a queue whose only task is empty.
\<close>

definition pending_task :: awaitable_task where
  "pending_task = fst (make_awaitable_task identity_callable [Fut 0] 1)"

definition polling_task :: awaitable_task where
  "polling_task = fst (make_awaitable_task identity_callable [Fut_ref 0] 1)"

definition seven_task :: awaitable_task where
  "seven_task = fst (make_ready_task (constant_callable 7) [] 2)"

definition two_task_queue :: task_queue where
  "two_task_queue = \<lparr>q_tasks = [(0, pending_task), (1, seven_task)], q_last = Node 1, q_done = False\<rparr>"

definition polled_first_queue :: task_queue where
  "polled_first_queue = \<lparr>q_tasks = [(0, polling_task), (1, seven_task)], q_last = Node 1, q_done = False\<rparr>"

definition empty_task_queue :: task_queue where
  "empty_task_queue = \<lparr>q_tasks = [(0, None)], q_last = Node 0, q_done = False\<rparr>"

text \<open>
  A system with two workers as its constructor leaves it, and two outcomes of the
  lock attempts: every attempt from the \<open>n\<close>-th on succeeds, or none does.
\<close>

definition two_worker_system :: awaitable_task_system where
  "two_worker_system =
     \<lparr>queues = [task_queue_new, task_queue_new, task_queue_new],
      threads = [1, 2], nthreads = 2, current_index = 1\<rparr>"

definition locks_from :: "nat \<Rightarrow> nat \<Rightarrow> bool" where
  "locks_from n k \<longleftrightarrow> n \<le> k"

definition never_locked :: "nat \<Rightarrow> bool" where
  "never_locked k \<longleftrightarrow> False"

section \<open>Properties of the task object\<close>

lemma call_get_abort: "call_get env a = Inl e \<Longrightarrow> e = std_terminate \<or> e = blocks_forever"
  by (cases a) (auto simp: noexcept_def future_get_def split: shared_state.splits)

lemma call_get_all_abort:
  "call_get_all env as = Inl e \<Longrightarrow> e = std_terminate \<or> e = blocks_forever"
proof (induction as arbitrary: e)
  case Nil
  then show ?case by simp
next
  case (Cons a as)
  show ?case
  proof (cases "call_get env a")
    case (Inl e')
    with Cons.prems show ?thesis using call_get_abort [of env a e'] by simp
  next
    case (Inr v)
    show ?thesis
    proof (cases "call_get_all env as")
      case (Inl e')
      with Inr Cons.prems Cons.IH [of e'] show ?thesis by simp
    next
      case Inr2: (Inr vs)
      with Inr Cons.prems show ?thesis by simp
    qed
  qed
qed

lemma packaged_task_call_abort:
  "packaged_task_call p vs env = Inl e \<Longrightarrow> e = uncaught ''promise_already_satisfied''"
  by (auto simp: packaged_task_call_def split: shared_state.splits)

lemma invoke_model_abort:
  assumes "invoke_model m env = Inl e"
  shows "e = std_terminate \<or> e = blocks_forever \<or> e = uncaught ''promise_already_satisfied''"
proof (cases m)
  case (ready_task_model p args)
  with assms show ?thesis using packaged_task_call_abort [of p args env e] by simp
next
  case (awaitable_task_model p args)
  show ?thesis
  proof (cases "call_get_all env args")
    case (Inl e')
    with assms awaitable_task_model show ?thesis
      using call_get_all_abort [of env args e'] by (auto simp: do_invoke_def)
  next
    case (Inr vs)
    with assms awaitable_task_model show ?thesis
      using packaged_task_call_abort [of p vs env e] by (simp add: do_invoke_def)
  qed
qed

lemma invoke_abort:
  assumes "invoke t env = Inl e"
  shows "e = bad_task_access \<or> e = std_terminate \<or> e = blocks_forever
         \<or> e = uncaught ''promise_already_satisfied''"
proof (cases t)
  case None
  with assms show ?thesis by (simp add: invoke_def)
next
  case (Some m)
  with assms show ?thesis using invoke_model_abort [of m env e] by (simp add: invoke_def)
qed

text \<open>
  What \<^verbatim>\<open>ready ()\<close> computes: only the futures held by reference are polled; a future
  that was moved into the task passes \<^verbatim>\<open>call_ready\<close> in the const context of
  \<^verbatim>\<open>do_ready_\<close> without a poll.
\<close>

lemma do_ready_iff:
  "do_ready args env \<longleftrightarrow> (\<forall>f. Fut_ref f \<in> set args \<longrightarrow> wait_for_0s env f = ready_status)"
  unfolding do_ready_def
proof (induction args)
  case Nil
  show ?case by simp
next
  case (Cons a args)
  then show ?case by (cases a) auto
qed

lemma ready_ready_task [simp]: "ready (Some (ready_task_model p args)) env = Inr True"
  by (simp add: ready_def)

lemma ready_awaitable_task:
  "ready (Some (awaitable_task_model p args)) env
     = Inr (\<forall>f. Fut_ref f \<in> set args \<longrightarrow> wait_for_0s env f = ready_status)"
  by (simp add: ready_def do_ready_iff)

lemma ready_empty [simp]: "ready None env = Inl bad_task_access"
  by (simp add: ready_def)

lemma ready_abort: "ready t env = Inl e \<Longrightarrow> e = bad_task_access"
  by (cases t) (auto simp: ready_def)

text \<open>
  Had \<^verbatim>\<open>call_ready\<close> been given every future as a non-const lvalue, the poll would
  decide for all of them.
\<close>

lemma check_all_true_iff: "check_all_true bs \<longleftrightarrow> (\<forall>b \<in> set bs. b)"
  by (induction bs) auto

lemma polled_ready_iff:
  "check_all_true (map (call_ready env Mutable) args)
     \<longleftrightarrow> (\<forall>f. Fut f \<in> set args \<or> Fut_ref f \<in> set args \<longrightarrow> wait_for_0s env f = ready_status)"
proof (induction args)
  case Nil
  show ?case by simp
next
  case (Cons a args)
  then show ?case by (cases a) auto
qed

section \<open>Claims about the task object\<close>

text \<open>
  Claim C8. An empty task (no model) fails with \<open>bad_task_access\<close> both when invoked
  and when asked \<^verbatim>\<open>ready ()\<close>; a task that holds a model never fails with
  \<open>bad_task_access\<close> in either operation.
\<close>

theorem bad_task_access_iff_empty:
  "invoke None env = Inl bad_task_access \<and> ready None env = Inl bad_task_access
   \<and> invoke (Some m) env \<noteq> Inl bad_task_access \<and> ready (Some m) env \<noteq> Inl bad_task_access"
proof -
  have "invoke (Some m) env \<noteq> Inl bad_task_access"
    using invoke_model_abort [of m env bad_task_access] by (auto simp: invoke_def)
  then show ?thesis by (simp add: invoke_def ready_def)
qed

text \<open>
  Claim C4, at the input where the code departs from it. The task is built by
  \<^verbatim>\<open>make_awaitable_task\<close> with one future argument, and the future is still pending: its
  zero-duration wait reports a timeout, yet \<^verbatim>\<open>ready ()\<close> of the task returns true. The
  claim asks for false there.
\<close>

theorem ready_true_while_future_pending:
  "wait_for_0s no_future_resolved 0 = timeout_status
   \<and> ready (fst (make_awaitable_task identity_callable [Fut 0] 1)) no_future_resolved = Inr True"
  by (simp add: wait_for_0s_def no_future_resolved_def make_awaitable_task_def Let_def
      ready_awaitable_task)

text \<open>
  Claim C2, at the input where the code departs from it. The only argument of an
  awaitable task is a future that holds the exception \<open>E\<close>. Invoking the task does not
  store \<open>E\<close> in the output promise: \<^verbatim>\<open>t.get ()\<close> rethrows \<open>E\<close> inside the \<^verbatim>\<open>noexcept\<close>
  function \<^verbatim>\<open>call_get\<close>, while the arguments of the packaged task are still being
  evaluated, and the process is terminated.
\<close>

theorem failed_dependency_terminates:
  "invoke (fst (make_awaitable_task identity_callable [Fut 0] 1))
     (no_future_resolved (0 := Has_exception ''E'')) = Inl std_terminate"
  by (simp add: invoke_def make_awaitable_task_def do_invoke_def noexcept_def future_get_def Let_def)

section \<open>Properties of the queue\<close>

text \<open>
  The head check of \<^verbatim>\<open>pop\<close>, and what \<^verbatim>\<open>pop\<close> and its scan keep and can end in.
\<close>

lemma fl_deref_head [simp]: "fl_deref (x # l) (Node (fst x)) = Inr (snd x)"
  by (cases x) (simp add: fl_deref_def)

lemma pop_empty:
  "q_tasks q = [] \<Longrightarrow>
     pop q env = (if q_done q then Inr ((False, None), q) else Inl blocks_forever)"
  by (simp add: pop_def)

lemma pop_head_ready:
  "q_tasks q = x # l \<Longrightarrow> ready (snd x) env = Inr True \<Longrightarrow>
     pop q env = Inr ((True, snd x), q\<lparr>q_tasks := l\<rparr>)"
  by (simp add: pop_def fl_take_front_def)

lemma pop_head_empty: "q_tasks q = x # l \<Longrightarrow> snd x = None \<Longrightarrow> pop q env = Inl bad_task_access"
  by (simp add: pop_def)

lemma fl_deref_abort: "fl_deref l it = Inl e \<Longrightarrow> e = undefined_behaviour"
  by (auto simp: fl_deref_def split: iterator_type.splits option.splits)

lemma node_after_abort: "node_after n l = Inl e \<Longrightarrow> e = undefined_behaviour"
  by (induction l) (auto split: if_splits)

lemma fl_next_abort: "fl_next l it = Inl e \<Longrightarrow> e = undefined_behaviour"
  by (auto simp: fl_next_def split: iterator_type.splits if_splits dest: node_after_abort)

lemma fl_erase_after_abort: "fl_erase_after l pos = Inl e \<Longrightarrow> e = undefined_behaviour"
  by (auto simp: fl_erase_after_def split: iterator_type.splits option.splits)

lemma fl_take_front_abort: "fl_take_front l = Inl e \<Longrightarrow> e = undefined_behaviour"
  by (auto simp: fl_take_front_def split: list.splits)

lemma rotate_with_abort: "rotate_with q side_buf = Inl e \<Longrightarrow> e = undefined_behaviour"
proof (cases "q_tasks q = [] \<or> q_last q = fl_begin (q_tasks q)")
  case True
  then show "rotate_with q side_buf = Inl e \<Longrightarrow> e = undefined_behaviour"
    by (auto simp: rotate_with_def)
next
  case False
  then show "rotate_with q side_buf = Inl e \<Longrightarrow> e = undefined_behaviour"
    by (simp add: rotate_with_undefined)
qed

lemma spin_yield_abort:
  "spin_yield t env = Inl e \<Longrightarrow> e = blocks_forever \<or> e = bad_task_access"
  by (auto simp: spin_yield_def then_do_Inl_iff split: if_splits dest: ready_abort)

fun result_queue :: "scan_result \<Rightarrow> task_queue" where
  "result_queue (Found t q) = q"
| "result_queue (Exhausted q) = q"

lemma scan_abort:
  "scan q side_buf env old_last lag iter = Inl e \<Longrightarrow>
     e = bad_task_access \<or> e = undefined_behaviour"
proof (induction q side_buf env old_last lag iter rule: scan.induct)
  case (1 q side_buf env old_last lag iter)
  from "1.prems" have ne: "lag \<noteq> old_last"
    by (subst (asm) scan.simps) (auto split: if_splits)
  show ?case
  proof (cases "fl_deref (q_tasks q) iter")
    case (Inl e')
    with "1.prems" ne show ?thesis
      by (subst (asm) scan.simps) (auto dest: fl_deref_abort)
  next
    case deref: (Inr t)
    show ?thesis
    proof (cases "ready t env")
      case (Inl e')
      with "1.prems" ne deref show ?thesis
        by (subst (asm) scan.simps) (auto dest: ready_abort)
    next
      case rdy: (Inr r)
      show ?thesis
      proof (cases r)
        case True
        with "1.prems" ne deref rdy show ?thesis
          by (subst (asm) scan.simps) (auto split: sum.splits dest: fl_erase_after_abort)
      next
        case False
        show ?thesis
        proof (cases "rotate_with q side_buf")
          case (Inl e')
          with "1.prems" ne deref rdy False show ?thesis
            by (subst (asm) scan.simps) (auto dest: rotate_with_abort)
        next
          case rot: (Inr x2)
          obtain q' side_buf' where x2: "x2 = (q', side_buf')" by (cases x2)
          show ?thesis
          proof (cases "fl_next (q_tasks q') iter")
            case (Inl e')
            with "1.prems" ne deref rdy False rot x2 show ?thesis
              by (subst (asm) scan.simps) (auto dest: fl_next_abort)
          next
            case nxt: (Inr iter')
            from "1.prems" ne deref rdy False rot x2 nxt
            have "scan q' side_buf' env old_last iter iter' = Inl e"
              by (subst (asm) scan.simps) simp
            with "1.IH" [OF ne deref rdy _ rot x2 [symmetric] nxt] False show ?thesis by simp
          qed
        qed
      qed
    qed
  qed
qed

lemma scan_done:
  "scan q side_buf env old_last lag iter = Inr res \<Longrightarrow> q_done (result_queue res) = q_done q"
proof (induction q side_buf env old_last lag iter rule: scan.induct)
  case (1 q side_buf env old_last lag iter)
  show ?case
  proof (cases "lag = old_last")
    case True
    with "1.prems" show ?thesis by (subst (asm) scan.simps) auto
  next
    case ne: False
    from "1.prems" ne obtain t where deref: "fl_deref (q_tasks q) iter = Inr t"
      by (subst (asm) scan.simps) (auto split: sum.splits)
    from "1.prems" ne deref obtain r where rdy: "ready t env = Inr r"
      by (subst (asm) scan.simps) (auto split: sum.splits)
    show ?thesis
    proof (cases r)
      case True
      with "1.prems" ne deref rdy show ?thesis
        by (subst (asm) scan.simps) (auto split: sum.splits)
    next
      case False
      from "1.prems" ne deref rdy False obtain x2 where rot: "rotate_with q side_buf = Inr x2"
        by (subst (asm) scan.simps) (auto split: sum.splits)
      obtain q' side_buf' where x2: "x2 = (q', side_buf')" by (cases x2)
      from rot x2 have same: "q' = q" using rotate_with_returns [of q side_buf x2] by simp
      from "1.prems" ne deref rdy False rot x2 obtain iter'
        where nxt: "fl_next (q_tasks q') iter = Inr iter'"
        by (subst (asm) scan.simps) (auto split: sum.splits)
      from "1.prems" ne deref rdy False rot x2 nxt
      have "scan q' side_buf' env old_last iter iter' = Inr res"
        by (subst (asm) scan.simps) simp
      with "1.IH" [OF ne deref rdy _ rot x2 [symmetric] nxt] False same show ?thesis by simp
    qed
  qed
qed

text \<open>
  When the head holds a model and is not ready, the sequential \<^verbatim>\<open>pop\<close> returns no task:
  with the head as only task it takes it and spins on \<^verbatim>\<open>ready ()\<close>; with more tasks it
  calls \<^verbatim>\<open>rotate_with_\<close> beyond its guard.
\<close>

lemma pop_head_not_ready:
  assumes t: "q_tasks q = x # l" and r: "ready (snd x) env = Inr False"
  shows "pop q env =
           (if q_last q = Node (fst x) \<and> distinct (map fst (x # l)) then Inl blocks_forever
            else Inl undefined_behaviour)"
proof (cases "q_last q = Node (fst x)")
  case False
  with t have "rotate_with q [] = Inl undefined_behaviour"
    by (simp add: rotate_with_undefined)
  with t r False show ?thesis by (simp add: pop_def Let_def)
next
  case True
  with t have rot: "rotate_with q [] = Inr (q, [])" by (simp add: rotate_with_def)
  have sc: "scan q [] env (Node (fst x)) (Node (fst x)) it = Inr (Exhausted q)" for it
    by (subst scan.simps) simp
  have sp: "spin_yield (snd x) env = Inl blocks_forever" using r by (simp add: spin_yield_def)
  show ?thesis
  proof (cases "distinct (map fst (x # l))")
    case d: True
    then have "fl_next (x # l) (Node (fst x)) = Inr (fl_begin l)" by (simp add: fl_next_def)
    with t r True rot sc sp d show ?thesis
      by (simp add: pop_def Let_def fl_take_front_def)
  next
    case d: False
    then have "fl_next (x # l) (Node (fst x)) = Inl undefined_behaviour"
      by (simp add: fl_next_def)
    with t r True rot d show ?thesis by (simp add: pop_def Let_def)
  qed
qed

lemma pop_abort:
  assumes "pop q env = Inl e"
  shows "e = blocks_forever \<or> e = bad_task_access \<or> e = undefined_behaviour"
proof (cases "q_tasks q")
  case Nil
  with assms show ?thesis by (simp add: pop_empty split: if_splits)
next
  case (Cons x l)
  show ?thesis
  proof (cases "ready (snd x) env")
    case (Inl e')
    with Cons have "pop q env = Inl e'" by (simp add: pop_def Let_def)
    with assms Inl show ?thesis using ready_abort [of "snd x" env e'] by simp
  next
    case (Inr b)
    show ?thesis
    proof (cases b)
      case True
      with Cons Inr assms show ?thesis using pop_head_ready [of q x l env] by simp
    next
      case False
      with Cons Inr assms show ?thesis
        using pop_head_not_ready [of q x l env] by (auto split: if_splits)
    qed
  qed
qed

lemma pop_returns:
  assumes "pop q env = Inr r"
  shows "q_done (snd r) = q_done q \<and> (q_tasks q \<noteq> [] \<longrightarrow> fst (fst r))"
proof (cases "q_tasks q")
  case Nil
  with assms show ?thesis by (auto simp: pop_empty split: if_splits)
next
  case (Cons x l)
  show ?thesis
  proof (cases "ready (snd x) env")
    case (Inl e')
    with Cons have "pop q env = Inl e'" by (simp add: pop_def Let_def)
    with assms show ?thesis by simp
  next
    case (Inr b)
    show ?thesis
    proof (cases b)
      case True
      with Cons Inr assms show ?thesis using pop_head_ready [of q x l env] by auto
    next
      case False
      with Cons Inr assms show ?thesis
        using pop_head_not_ready [of q x l env] by (auto split: if_splits)
    qed
  qed
qed

lemma fold_max_ge: "a \<le> fold (\<lambda>x m. max (Suc (fst x)) m) l (a::nat)"
proof (induction l arbitrary: a)
  case Nil
  show ?case by simp
next
  case (Cons x l)
  have "max (Suc (fst x)) a \<le> fold (\<lambda>x m. max (Suc (fst x)) m) l (max (Suc (fst x)) a)"
    by (rule Cons.IH)
  then show ?case by simp
qed

lemma fold_max_gt:
  "x \<in> set l \<Longrightarrow> fst x < fold (\<lambda>x m. max (Suc (fst x)) m) l (a::nat)"
proof (induction l arbitrary: a)
  case Nil
  then show ?case by simp
next
  case (Cons y l)
  show ?case
  proof (cases "x = y")
    case True
    have "max (Suc (fst y)) a \<le> fold (\<lambda>x m. max (Suc (fst x)) m) l (max (Suc (fst y)) a)"
      by (rule fold_max_ge)
    with True show ?thesis by simp
  next
    case False
    with Cons.prems have "x \<in> set l" by simp
    then show ?thesis using Cons.IH by simp
  qed
qed

lemma fresh_node_new: "fresh_node l \<notin> fst ` set l"
proof
  assume "fresh_node l \<in> fst ` set l"
  then obtain x where "x \<in> set l" and "fst x = fresh_node l" by auto
  then show False using fold_max_gt [of x l 0] by (simp add: fresh_node_def)
qed

lemma insert_after_last:
  "l \<noteq> [] \<Longrightarrow> distinct (map fst l) \<Longrightarrow> insert_after (fst (last l)) xs l = Some (l @ xs)"
proof (induction l)
  case Nil
  then show ?case by simp
next
  case (Cons y l)
  show ?case
  proof (cases "l = []")
    case True
    then show ?thesis by simp
  next
    case False
    then have "last l \<in> set l" by simp
    with Cons.prems have "fst y \<noteq> fst (last l)" by force
    with False Cons show ?thesis by simp
  qed
qed

lemma append_task_ok:
  assumes "queue_ok q"
  shows "append_task q t = Inr (with_task q t)"
proof (cases "q_tasks q = []")
  case True
  then show ?thesis
    by (simp add: append_task_def with_task_def fl_emplace_front_def Let_def)
next
  case False
  with assms have l: "q_last q = Node (fst (last (q_tasks q)))"
    and d: "distinct (map fst (q_tasks q))" by (auto simp: queue_ok_def)
  from False d l show ?thesis
    by (simp add: append_task_def with_task_def fl_emplace_after_def insert_after_last)
qed

lemma with_task_ok: "queue_ok q \<Longrightarrow> queue_ok (with_task q t)"
  using fresh_node_new [of "q_tasks q"] by (auto simp: queue_ok_def with_task_def)

lemma try_pop_ok: "queue_ok q \<Longrightarrow> queue_ok (snd (try_pop q b))"
  by (cases "q_tasks q") (auto simp: try_pop_def queue_ok_def distinct_tl)


lemma try_pop_done: "q_done q \<Longrightarrow> q_done (snd (try_pop q b))"
  by (simp add: try_pop_def)

lemma append_task_done: "append_task q t = Inr q' \<Longrightarrow> q_done q' = q_done q"
  by (auto simp: append_task_def Let_def fl_emplace_after_def
      split: if_splits iterator_type.splits option.splits)

text \<open>An empty task at the head: the head check throws, by the guard of \<^verbatim>\<open>ready ()\<close>.\<close>

lemma pop_empty_task_head: "pop empty_task_queue env = Inl bad_task_access"
  using pop_head_empty [of empty_task_queue "(0, None)" "[]" env]
  by (simp add: empty_task_queue_def)

lemma pop_done: "pop q env = Inr r \<Longrightarrow> q_done (snd r) = q_done q"
  by (simp add: pop_returns)

lemma pop_never_false: "q_tasks q \<noteq> [] \<Longrightarrow> pop q env \<noteq> Inr ((False, t), q')"
  using pop_returns [of q env "((False, t), q')"] by auto

section \<open>Claims about the queue\<close>

text \<open>
  Claim C1, at the inputs where the code departs from it. In both queues a task
  whose future is still pending stands before a task that is ready.
  \<^item> The first task was handed the caller's future as an lvalue: its \<^verbatim>\<open>ready ()\<close> polls
    and is false, the head check fails, and \<^verbatim>\<open>pop\<close> goes on to \<^verbatim>\<open>rotate_with_\<close>, whose
    first splice has no defined behaviour. \<^verbatim>\<open>pop\<close> returns no task.
  \<^item> The first task was handed its future by \<^verbatim>\<open>std::move\<close>: its \<^verbatim>\<open>ready ()\<close> does not
    poll, and \<^verbatim>\<open>pop\<close> returns this task, whose future reports a timeout, and leaves
    the ready task behind.
\<close>

theorem pop_ready_skipping_fails:
  "queue_ok polled_first_queue
   \<and> ready polling_task no_future_resolved = Inr False
   \<and> ready seven_task no_future_resolved = Inr True
   \<and> pop polled_first_queue no_future_resolved = Inl undefined_behaviour
   \<and> wait_for_0s no_future_resolved 0 = timeout_status
   \<and> pop two_task_queue no_future_resolved
       = Inr ((True, pending_task), two_task_queue\<lparr>q_tasks := [(1, seven_task)]\<rparr>)"
proof -
  have a: "queue_ok polled_first_queue"
    by (simp add: queue_ok_def polled_first_queue_def)
  have w: "wait_for_0s no_future_resolved 0 = timeout_status"
    by (simp add: wait_for_0s_def no_future_resolved_def)
  have b: "ready polling_task no_future_resolved = Inr False"
    using w by (simp add: polling_task_def make_awaitable_task_def Let_def ready_awaitable_task)
  have c: "ready seven_task no_future_resolved = Inr True"
    by (simp add: seven_task_def make_ready_task_def Let_def)
  have d: "pop polled_first_queue no_future_resolved = Inl undefined_behaviour"
    using pop_head_not_ready [of polled_first_queue "(0, polling_task)" "[(1, seven_task)]"
        no_future_resolved] b
    by (simp add: polled_first_queue_def)
  have p: "ready pending_task no_future_resolved = Inr True"
    by (simp add: pending_task_def make_awaitable_task_def Let_def ready_awaitable_task)
  have e: "pop two_task_queue no_future_resolved
       = Inr ((True, pending_task), two_task_queue\<lparr>q_tasks := [(1, seven_task)]\<rparr>)"
    using pop_head_ready [of two_task_queue "(0, pending_task)" "[(1, seven_task)]"
        no_future_resolved] p
    by (simp add: two_task_queue_def)
  from a b c d w e show ?thesis by (intro conjI)
qed

text \<open>
  Claim C3, at the input where the code departs from it. The queue is well formed and
  holds two tasks, the tail cursor on the second. \<^verbatim>\<open>rotate_with_\<close> with the empty side
  buffer of \<^verbatim>\<open>pop\<close> does not rotate: its first statement splices behind
  \<^verbatim>\<open>side_buf.begin ()\<close>, the end iterator of an empty list, so no state follows the
  rotation in which the tail cursor could designate the last task.
\<close>

theorem rotation_is_undefined:
  "queue_ok two_task_queue \<and> rotate_with two_task_queue [] = Inl undefined_behaviour"
  by (simp add: queue_ok_def two_task_queue_def rotate_with_def)

text \<open>
  Claim C6. After \<^verbatim>\<open>set_done\<close>, a blocking \<^verbatim>\<open>pop\<close> on an empty sequence returns
  \<open>(false, empty)\<close> at once and leaves the queue as it is; a second \<^verbatim>\<open>set_done\<close> changes
  nothing; and no operation of the queue clears a flag that is set.
\<close>

theorem done_is_final:
  "(q_tasks q = [] \<longrightarrow> pop (set_done q) env = Inr ((False, None), set_done q))
   \<and> set_done (set_done q) = set_done q
   \<and> (q_done q \<longrightarrow>
        q_done (set_done q)
        \<and> q_done (snd (try_pop q b))
        \<and> (\<forall>r. try_push q t b = Inr r \<longrightarrow> q_done (snd r))
        \<and> (\<forall>q'. push q t = Inr q' \<longrightarrow> q_done q')
        \<and> (\<forall>r. pop q env = Inr r \<longrightarrow> q_done (snd r))
        \<and> (\<forall>r. rotate_with q side_buf = Inr r \<longrightarrow> q_done (fst r)))"
proof -
  have a: "q_tasks q = [] \<longrightarrow> pop (set_done q) env = Inr ((False, None), set_done q)"
    by (simp add: pop_empty set_done_def)
  have b: "set_done (set_done q) = set_done q" by (simp add: set_done_def)
  have c: "q_done q \<longrightarrow> q_done (set_done q) \<and> q_done (snd (try_pop q b))"
    by (simp add: set_done_def try_pop_done)
  have d: "q_done q \<longrightarrow> (\<forall>r. try_push q t b = Inr r \<longrightarrow> q_done (snd r))"
  proof (intro impI allI)
    fix r assume dq: "q_done q" and tp: "try_push q t b = Inr r"
    show "q_done (snd r)"
    proof (cases b)
      case False
      with tp dq show ?thesis by (auto simp: try_push_def)
    next
      case True
      with tp obtain q' where "append_task q t = Inr q'" and "r = (True, q')"
        by (cases "append_task q t") (auto simp: try_push_def)
      with dq show ?thesis using append_task_done [of q t q'] by simp
    qed
  qed
  have e: "q_done q \<longrightarrow> (\<forall>q'. push q t = Inr q' \<longrightarrow> q_done q')"
    using append_task_done [of q t] by (simp add: push_def)
  have f: "q_done q \<longrightarrow> (\<forall>r. pop q env = Inr r \<longrightarrow> q_done (snd r))"
    using pop_done [of q env] by simp
  have g: "q_done q \<longrightarrow> (\<forall>r. rotate_with q side_buf = Inr r \<longrightarrow> q_done (fst r))"
    using rotate_with_returns [of q side_buf] by auto
  from a b c d e f g show ?thesis by blast
qed

text \<open>Claim C6 on a new queue and on a queue with two tasks.\<close>

theorem done_is_final_witness:
  "pop (set_done task_queue_new) no_future_resolved = Inr ((False, None), set_done task_queue_new)
   \<and> q_done (snd (try_pop (set_done two_task_queue) True))"
proof -
  have e: "q_tasks task_queue_new = []" by (simp add: task_queue_new_def)
  have d: "q_done (set_done two_task_queue)" by (simp add: set_done_def)
  have 1: "pop (set_done task_queue_new) no_future_resolved
             = Inr ((False, None), set_done task_queue_new)"
    using done_is_final [of task_queue_new no_future_resolved] e by blast
  have 2: "q_done (snd (try_pop (set_done two_task_queue) True))"
    using done_is_final [of "set_done two_task_queue" no_future_resolved True] d by blast
  from 1 2 show ?thesis by (rule conjI)
qed

section \<open>Properties of the task system\<close>

lemma queue_at_main [simp]:
  "queues sys \<noteq> [] \<Longrightarrow> queue_at sys 0 = Inr (queues sys ! 0)"
  by (simp add: queue_at_def)

lemma queue_upd_same: "queue_upd sys i (queues sys ! unat i) = sys"
  by (simp add: queue_upd_def)

lemma main_try_pop_empty: "q_tasks q = [] \<Longrightarrow> main_try_pop q locks ks = ((False, None), q)"
  by (induction ks) (simp_all add: try_pop_def)

lemma try_push_ok:
  "queue_ok q \<Longrightarrow> try_push q t b = Inr (if b then (True, with_task q t) else (False, q))"
  by (simp add: try_push_def append_task_ok)

lemma main_try_push_ok:
  assumes "queues sys \<noteq> []" and "queue_ok (queues sys ! 0)"
  shows "main_try_push sys t locks ks
           = Inr (if \<exists>k \<in> set ks. locks k then Some (main_enqueued sys t) else None)"
  using assms
  by (induction ks)
     (auto simp: try_push_ok queue_upd_def main_enqueued_def get_main_thread_queue_idx_def)

lemma submit_to_main_ok:
  assumes "queues sys \<noteq> []" and "queue_ok (queues sys ! 0)"
  shows "submit_to_main sys t locks ks = Inr (main_enqueued sys t)"
  using assms
  by (simp add: submit_to_main_def main_try_push_ok push_def append_task_ok
      queue_upd_def main_enqueued_def get_main_thread_queue_idx_def)

lemma unat_mod_less: "(n :: 64 word) \<noteq> 0 \<Longrightarrow> unat (x mod n) < unat n"
  by (simp add: unat_mod word_neq_0_conv unat_gt_0)

lemma unat_mod_plus_1:
  assumes "(n :: 64 word) \<noteq> 0"
  shows "unat (x mod n + 1) = unat (x mod n) + 1"
proof -
  have "unat (x mod n) < unat n" using assms by (rule unat_mod_less)
  moreover have "unat n < 2 ^ 64" using unsigned_less [of n, where ?'a = nat] by simp
  ultimately have "unat (x mod n) + unat (1 :: 64 word) < 2 ^ LENGTH(64)" by simp
  then have "unat (x mod n + 1) = unat (x mod n) + unat (1 :: 64 word)"
    by (simp only: unat_add_lem)
  then show ?thesis by simp
qed

lemma unat_ten_times:
  assumes "10 * unat (n :: 64 word) < 2 ^ 64"
  shows "unat (10 * n) = 10 * unat n"
proof -
  have "unat (10 :: 64 word) * unat n < 2 ^ LENGTH(64)" using assms by simp
  then have "unat (10 * n) = unat (10 :: 64 word) * unat n" by (simp only: unat_mult_lem)
  then show ?thesis by simp
qed

lemma unat_plus_of_nat: "unat (idx + of_nat k :: 64 word) = (unat idx + k) mod 2 ^ 64"
  by (simp add: unat_word_ariths unat_of_nat mod_add_right_eq)

lemma find_first: "k < n \<Longrightarrow> P k \<Longrightarrow> \<forall>j<k. \<not> P j \<Longrightarrow> find P [0..<n] = Some k"
  by (auto simp: find_Some_iff intro!: exI [of _ k])

lemma find_none: "\<forall>k<n. \<not> P k \<Longrightarrow> find P [0..<n] = None"
  by (simp add: find_None_iff)

lemma worker_index_in_range:
  assumes "nthreads sys \<noteq> 0" and "length (queues sys) = unat (nthreads sys) + 1"
  shows "unat (x mod nthreads sys + 1) < length (queues sys)"
  using assms unat_mod_less [of "nthreads sys" x] by (simp add: unat_mod_plus_1)

lemma queue_at_worker:
  assumes "nthreads sys \<noteq> 0" and "length (queues sys) = unat (nthreads sys) + 1"
  shows "queue_at sys (x mod nthreads sys + 1) = Inr (queues sys ! unat (x mod nthreads sys + 1))"
  using worker_index_in_range [OF assms] by (simp add: queue_at_def)

lemma ring_try_push_ok:
  assumes n: "nthreads sys \<noteq> 0" and len: "length (queues sys) = unat (nthreads sys) + 1"
    and ok: "list_all queue_ok (queues sys)"
  shows "ring_try_push sys t idx locks ks =
           Inr (case find locks ks of
                  None \<Rightarrow> None
                | Some k \<Rightarrow> Some (queue_upd sys ((idx + of_nat k) mod nthreads sys + 1)
                     (with_task (queues sys ! unat ((idx + of_nat k) mod nthreads sys + 1)) t)))"
proof (induction ks)
  case Nil
  show ?case by simp
next
  case (Cons k ks)
  let ?i = "(idx + of_nat k) mod nthreads sys + 1"
  have g: "get_thread_queue_idx sys idx (of_nat k) = Inr ?i"
    using n by (simp add: get_thread_queue_idx_def)
  have a: "queue_at sys ?i = Inr (queues sys ! unat ?i)"
    using n len by (rule queue_at_worker)
  have "queue_ok (queues sys ! unat ?i)"
    using ok worker_index_in_range [OF n len] by (simp add: list_all_length)
  then have p: "try_push (queues sys ! unat ?i) t (locks k)
      = Inr (if locks k then (True, with_task (queues sys ! unat ?i) t)
             else (False, queues sys ! unat ?i))"
    by (rule try_push_ok)
  show ?case
    by (simp add: g a p Cons.IH)
qed

lemma submit_to_workers_ok:
  assumes n: "nthreads sys \<noteq> 0" and len: "length (queues sys) = unat (nthreads sys) + 1"
    and ok: "list_all queue_ok (queues sys)"
  shows "submit_to_workers sys t locks =
           Inr (case find locks [0..<unat (10 * nthreads sys)] of
                  None \<Rightarrow> worker_enqueued sys (current_index sys mod nthreads sys + 1) t
                | Some k \<Rightarrow> worker_enqueued sys (ring_queue sys k) t)"
proof -
  let ?sys1 = "sys\<lparr>current_index := current_index sys + 1\<rparr>"
  have n1: "nthreads ?sys1 \<noteq> 0" using n by simp
  have len1: "length (queues ?sys1) = unat (nthreads ?sys1) + 1" using len by simp
  have ok1: "list_all queue_ok (queues ?sys1)" using ok by simp
  have g: "get_thread_queue_idx ?sys1 (current_index sys) 0
             = Inr (current_index sys mod nthreads sys + 1)"
    using n by (simp add: get_thread_queue_idx_def)
  have a: "queue_at ?sys1 (current_index sys mod nthreads sys + 1)
             = Inr (queues sys ! unat (current_index sys mod nthreads sys + 1))"
    using queue_at_worker [OF n1 len1, of "current_index sys"] by simp
  have "queue_ok (queues sys ! unat (current_index sys mod nthreads sys + 1))"
    using ok worker_index_in_range [OF n len] by (simp add: list_all_length)
  then have p: "push (queues sys ! unat (current_index sys mod nthreads sys + 1)) t
      = Inr (with_task (queues sys ! unat (current_index sys mod nthreads sys + 1)) t)"
    by (simp add: push_def append_task_ok)
  show ?thesis
    unfolding submit_to_workers_def Let_def ring_try_push_ok [OF n1 len1 ok1]
    by (cases "find locks [0..<unat (10 * nthreads sys)]")
       (simp_all add: g a p queue_upd_def worker_enqueued_def ring_queue_def)
qed



lemma append_task_abort: "append_task q t = Inl e \<Longrightarrow> e = undefined_behaviour"
  by (auto simp: append_task_def Let_def fl_emplace_after_def then_do_Inl_iff
      split: if_splits iterator_type.splits option.splits)

lemma try_push_abort: "try_push q t b = Inl e \<Longrightarrow> e = undefined_behaviour"
  by (auto simp: try_push_def then_do_Inl_iff dest: append_task_abort split: if_splits)

lemma push_abort: "push q t = Inl e \<Longrightarrow> e = undefined_behaviour"
  by (simp add: push_def append_task_abort)

lemma queue_at_abort: "queue_at sys i = Inl e \<Longrightarrow> e = undefined_behaviour"
  by (auto simp: queue_at_def split: if_splits)

lemma main_try_push_abort: "main_try_push sys t locks ks = Inl e \<Longrightarrow> e = undefined_behaviour"
proof (induction ks)
  case Nil
  then show ?case by simp
next
  case (Cons k ks)
  then show ?case
    by (auto simp: then_do_Inl_iff dest: queue_at_abort try_push_abort split: if_splits)
qed

lemma submit_to_main_abort: "submit_to_main sys t locks ks = Inl e \<Longrightarrow> e = undefined_behaviour"
  by (auto simp: submit_to_main_def then_do_Inl_iff
      dest: main_try_push_abort queue_at_abort push_abort split: option.splits)

lemma ring_try_push_abort:
  "nthreads sys \<noteq> 0 \<Longrightarrow> ring_try_push sys t idx locks ks = Inl e \<Longrightarrow> e = undefined_behaviour"
proof (induction ks)
  case Nil
  then show ?case by simp
next
  case (Cons k ks)
  then show ?case
    by (auto simp: then_do_Inl_iff get_thread_queue_idx_def
        dest: queue_at_abort try_push_abort split: if_splits)
qed

lemma submit_to_workers_abort:
  assumes "nthreads sys \<noteq> 0" and "submit_to_workers sys t locks = Inl e"
  shows "e = undefined_behaviour"
proof -
  let ?sys1 = "sys\<lparr>current_index := current_index sys + 1\<rparr>"
  have n1: "nthreads ?sys1 \<noteq> 0" using assms(1) by simp
  show ?thesis
    using assms(2) ring_try_push_abort [OF n1] n1
    by (auto simp: submit_to_workers_def Let_def then_do_Inl_iff get_thread_queue_idx_def
        dest: queue_at_abort push_abort split: option.splits)
qed

lemma ring_try_pop_abort:
  "nthreads sys \<noteq> 0 \<Longrightarrow> ring_try_pop sys idx locks ks = Inl e \<Longrightarrow> e = undefined_behaviour"
proof (induction ks arbitrary: sys)
  case Nil
  then show ?case by simp
next
  case (Cons k ks)
  from Cons.prems(1) have g: "get_thread_queue_idx sys idx (of_nat k)
      = Inr ((idx + of_nat k) mod nthreads sys + 1)"
    by (simp add: get_thread_queue_idx_def)
  let ?i = "(idx + of_nat k) mod nthreads sys + 1"
  show ?case
  proof (cases "queue_at sys ?i")
    case (Inl e')
    with Cons.prems g show ?thesis using queue_at_abort [of sys ?i e'] by simp
  next
    case (Inr q)
    show ?thesis
    proof (cases "fst (fst (try_pop q (locks k)))")
      case True
      with Cons.prems g Inr show ?thesis by (simp add: Let_def)
    next
      case False
      have "nthreads (queue_upd sys ?i (snd (try_pop q (locks k)))) \<noteq> 0"
        using Cons.prems(1) by (simp add: queue_upd_def)
      moreover have "ring_try_pop (queue_upd sys ?i (snd (try_pop q (locks k)))) idx locks ks = Inl e"
        using Cons.prems g Inr False by (simp add: Let_def)
      ultimately show ?thesis by (rule Cons.IH)
    qed
  qed
qed

lemma ring_try_pop_no_division_by_zero:
  "ring_try_pop sys idx locks [0..<unat (10 * nthreads sys)] \<noteq> Inl division_by_zero"
proof (cases "nthreads sys = 0")
  case True
  then show ?thesis by simp
next
  case False
  then show ?thesis
    using ring_try_pop_abort [of sys idx locks "[0..<unat (10 * nthreads sys)]" division_by_zero]
    by auto
qed

lemma run_round_no_division_by_zero: "run_round sys env idx locks \<noteq> Inl division_by_zero"
proof
  assume a: "run_round sys env idx locks = Inl division_by_zero"
  show False
  proof (cases "ring_try_pop sys idx locks [0..<unat (10 * nthreads sys)]")
    case (Inl e)
    with a have "e = division_by_zero" by (simp add: run_round_def)
    with Inl show False using ring_try_pop_no_division_by_zero [of sys idx locks] by simp
  next
    case (Inr r)
    obtain p sys1 where r: "r = (p, sys1)" by (cases r)
    show False
    proof (cases "fst p")
      case True
      with a Inr r show False
        using invoke_abort [of "snd p" env division_by_zero]
        by (auto simp: run_round_def then_do_Inl_iff)
    next
      case False
      with a Inr r show False
        using invoke_abort [of _ env division_by_zero]
        by (auto simp: run_round_def then_do_Inl_iff split: if_splits
            dest: queue_at_abort pop_abort)
    qed
  qed
qed


text \<open>
  Which aborts an operation can end in. \<open>division_by_zero\<close> arises in
  \<^verbatim>\<open>get_thread_queue_idx\<close> alone.
\<close>

lemma run_result_no_division_by_zero:
  assumes "run sys env idx locks n = Some y"
  shows "y \<noteq> Inl division_by_zero"
proof (rule run.raw_induct [where P = "\<lambda>sys env idx locks n y. y \<noteq> Inl division_by_zero",
      OF _ assms])
  fix run' :: "awaitable_task_system \<Rightarrow> env \<Rightarrow> size_t \<Rightarrow> (nat \<Rightarrow> nat \<Rightarrow> bool) \<Rightarrow> nat
      \<Rightarrow> (abort + awaitable_task_system \<times> env) option"
  fix sys env idx locks n y
  assume IH: "\<And>sys env idx locks n y. run' sys env idx locks n = Some y
      \<Longrightarrow> y \<noteq> Inl division_by_zero"
  assume eq: "(case run_round sys env idx (locks n) of
        Inl e \<Rightarrow> Some (Inl e)
      | Inr r \<Rightarrow>
          if fst r then run' (fst (snd r)) (snd (snd r)) idx locks (Suc n)
          else Some (Inr (snd r))) = Some y"
  show "y \<noteq> Inl division_by_zero"
  proof (cases "run_round sys env idx (locks n)")
    case (Inl e)
    with eq have "y = Inl e" by simp
    with Inl show ?thesis using run_round_no_division_by_zero [of sys env idx "locks n"] by auto
  next
    case (Inr r)
    show ?thesis
    proof (cases "fst r")
      case True
      with eq Inr have "run' (fst (snd r)) (snd (snd r)) idx locks (Suc n) = Some y" by simp
      then show ?thesis by (rule IH)
    next
      case False
      with eq Inr show ?thesis by auto
    qed
  qed
qed

lemma new_two: "awaitable_task_system_new 2 = two_worker_system"
  by (simp add: awaitable_task_system_new_def two_worker_system_def upt_rec)

lemma queue_ok_new: "queue_ok task_queue_new"
  by (simp add: queue_ok_def task_queue_new_def)

text \<open>
  The constructor makes a well-formed system (unless \<open>N + 1\<close> wraps to 0), and
  appending a task keeps it well formed.
\<close>

lemma list_all_update:
  assumes "list_all P xs" and "i < length xs \<longrightarrow> P y"
  shows "list_all P (xs[i := y])"
proof (cases "i < length xs")
  case True
  with assms show ?thesis by (auto simp: list_all_length nth_list_update)
next
  case False
  with assms show ?thesis by (simp add: list_update_beyond)
qed

lemma system_ok_new:
  assumes "n + 1 \<noteq> 0"
  shows "system_ok (awaitable_task_system_new n)"
proof -
  have "1 + n \<noteq> 0" using assms by (simp add: add.commute)
  then have "unat (1 + n) = Suc (unat n)" by (rule unatSuc)
  then have "unat (n + 1) = Suc (unat n)" by (simp add: add.commute)
  then show ?thesis
    by (simp add: system_ok_def awaitable_task_system_new_def queue_ok_new list_all_iff)
qed

lemma system_ok_worker_enqueued:
  assumes "system_ok sys"
  shows "system_ok (worker_enqueued sys i t)"
proof -
  have "unat i < length (queues sys) \<longrightarrow> queue_ok (with_task (queues sys ! unat i) t)"
    using assms by (auto simp: system_ok_def list_all_length with_task_ok)
  with assms show ?thesis
    by (simp add: system_ok_def worker_enqueued_def list_all_update)
qed

lemma system_ok_main_enqueued:
  assumes "system_ok sys"
  shows "system_ok (main_enqueued sys t)"
proof -
  have "0 < length (queues sys) \<longrightarrow> queue_ok (with_task (queues sys ! 0) t)"
    using assms by (auto simp: system_ok_def list_all_length with_task_ok)
  with assms show ?thesis
    by (simp add: system_ok_def main_enqueued_def list_all_update)
qed

section \<open>Claims about the task system\<close>

text \<open>
  Claim C5. In a well-formed system with \<open>N \<ge> 1\<close> workers (and \<open>10 * N\<close>
  representable in \<^verbatim>\<open>std::size_t\<close>), \<^verbatim>\<open>push_ready\<close> and both \<^verbatim>\<open>push_awaitable\<close> take
  \<open>idx\<close> from the dispatch counter and advance it by one; the task goes to queue
  \<open>((idx + k) mod N) + 1\<close> for the first \<open>k < 10 * N\<close> whose \<^verbatim>\<open>try_push\<close> gets the lock,
  and the output future is returned; when no attempt succeeds the task goes to queue
  \<open>(idx mod N) + 1\<close> by the blocking \<^verbatim>\<open>push\<close>. The sum \<open>idx + k\<close> is taken modulo
  \<open>2 ^ 64\<close>.
\<close>

theorem worker_submission:
  assumes "system_ok sys" and "nthreads sys \<noteq> 0" and "10 * unat (nthreads sys) < 2 ^ 64"
  shows "(\<forall>k. k < 10 * unat (nthreads sys) \<and> locks k \<and> (\<forall>j<k. \<not> locks j) \<longrightarrow>
            push_ready sys f args out locks
              = Inr (worker_enqueued sys (ring_queue sys k) (fst (make_ready_task f args out)), out)
          \<and> push_awaitable sys f fargs out locks
              = Inr (worker_enqueued sys (ring_queue sys k) (fst (make_awaitable_task f fargs out)), out)
          \<and> push_awaitable_task sys t locks = Inr (worker_enqueued sys (ring_queue sys k) t))
       \<and> ((\<forall>k<10 * unat (nthreads sys). \<not> locks k) \<longrightarrow>
            push_ready sys f args out locks
              = Inr (worker_enqueued sys (ring_queue sys 0) (fst (make_ready_task f args out)), out)
          \<and> push_awaitable sys f fargs out locks
              = Inr (worker_enqueued sys (ring_queue sys 0) (fst (make_awaitable_task f fargs out)), out)
          \<and> push_awaitable_task sys t locks = Inr (worker_enqueued sys (ring_queue sys 0) t))
       \<and> (\<forall>k. unat (ring_queue sys k)
                 = ((unat (current_index sys) + k) mod 2 ^ 64) mod unat (nthreads sys) + 1)"
proof -
  from assms(1) have len: "length (queues sys) = unat (nthreads sys) + 1"
    and ok: "list_all queue_ok (queues sys)" by (simp_all add: system_ok_def)
  note sub = submit_to_workers_ok [OF assms(2) len ok]
  have ten: "unat (10 * nthreads sys) = 10 * unat (nthreads sys)"
    using assms(3) by (rule unat_ten_times)
  have first: "submit_to_workers sys u locks = Inr (worker_enqueued sys (ring_queue sys k) u)"
    if "k < 10 * unat (nthreads sys)" and "locks k" and "\<forall>j<k. \<not> locks j" for k u
    using that by (simp add: sub ten find_first)
  have none: "submit_to_workers sys u locks = Inr (worker_enqueued sys (ring_queue sys 0) u)"
    if "\<forall>k<10 * unat (nthreads sys). \<not> locks k" for u
    using that by (simp add: sub ten find_none ring_queue_def)
  have snd_r: "snd (make_ready_task f args out) = out"
    by (simp add: make_ready_task_def get_future_def Let_def)
  have snd_a: "snd (make_awaitable_task f fargs out) = out"
    by (simp add: make_awaitable_task_def get_future_def Let_def)
  have A: "\<forall>k. k < 10 * unat (nthreads sys) \<and> locks k \<and> (\<forall>j<k. \<not> locks j) \<longrightarrow>
            push_ready sys f args out locks
              = Inr (worker_enqueued sys (ring_queue sys k) (fst (make_ready_task f args out)), out)
          \<and> push_awaitable sys f fargs out locks
              = Inr (worker_enqueued sys (ring_queue sys k) (fst (make_awaitable_task f fargs out)), out)
          \<and> push_awaitable_task sys t locks = Inr (worker_enqueued sys (ring_queue sys k) t)"
  proof (intro allI impI)
    fix k
    assume "k < 10 * unat (nthreads sys) \<and> locks k \<and> (\<forall>j<k. \<not> locks j)"
    then have s: "submit_to_workers sys u locks = Inr (worker_enqueued sys (ring_queue sys k) u)"
      for u using first by blast
    show "push_ready sys f args out locks
              = Inr (worker_enqueued sys (ring_queue sys k) (fst (make_ready_task f args out)), out)
          \<and> push_awaitable sys f fargs out locks
              = Inr (worker_enqueued sys (ring_queue sys k) (fst (make_awaitable_task f fargs out)), out)
          \<and> push_awaitable_task sys t locks = Inr (worker_enqueued sys (ring_queue sys k) t)"
      using assms(2)
      by (simp add: push_ready_def push_awaitable_def push_awaitable_task_def Let_def
          snd_r snd_a s)
  qed
  have B: "(\<forall>k<10 * unat (nthreads sys). \<not> locks k) \<longrightarrow>
            push_ready sys f args out locks
              = Inr (worker_enqueued sys (ring_queue sys 0) (fst (make_ready_task f args out)), out)
          \<and> push_awaitable sys f fargs out locks
              = Inr (worker_enqueued sys (ring_queue sys 0) (fst (make_awaitable_task f fargs out)), out)
          \<and> push_awaitable_task sys t locks = Inr (worker_enqueued sys (ring_queue sys 0) t)"
  proof (intro impI)
    assume "\<forall>k<10 * unat (nthreads sys). \<not> locks k"
    then have s: "submit_to_workers sys u locks = Inr (worker_enqueued sys (ring_queue sys 0) u)"
      for u using none by blast
    show "push_ready sys f args out locks
              = Inr (worker_enqueued sys (ring_queue sys 0) (fst (make_ready_task f args out)), out)
          \<and> push_awaitable sys f fargs out locks
              = Inr (worker_enqueued sys (ring_queue sys 0) (fst (make_awaitable_task f fargs out)), out)
          \<and> push_awaitable_task sys t locks = Inr (worker_enqueued sys (ring_queue sys 0) t)"
      using assms(2)
      by (simp add: push_ready_def push_awaitable_def push_awaitable_task_def Let_def
          snd_r snd_a s)
  qed
  have C: "\<forall>k. unat (ring_queue sys k)
                 = ((unat (current_index sys) + k) mod 2 ^ 64) mod unat (nthreads sys) + 1"
    using assms(2) by (simp add: ring_queue_def unat_mod_plus_1 unat_mod unat_plus_of_nat)
  from A B C show ?thesis by (intro conjI)
qed


text \<open>
  Claim C5 on a system with two workers and the counter at 1: the second attempt
  succeeds and the task is in queue 1; no attempt succeeds and it is in queue 2.
\<close>

theorem worker_submission_witness:
  "push_ready two_worker_system (constant_callable 7) [] 2 (locks_from 1)
     = Inr (worker_enqueued two_worker_system 1 seven_task, 2)
   \<and> push_ready two_worker_system (constant_callable 7) [] 2 never_locked
     = Inr (worker_enqueued two_worker_system 2 seven_task, 2)"
proof -
  have ok: "system_ok two_worker_system"
    by (simp add: system_ok_def two_worker_system_def queue_ok_new)
  have n: "nthreads two_worker_system \<noteq> 0" by (simp add: two_worker_system_def)
  have b: "10 * unat (nthreads two_worker_system) < 2 ^ 64" by (simp add: two_worker_system_def)
  have r1: "ring_queue two_worker_system 1 = 1" by (simp add: ring_queue_def two_worker_system_def)
  have r0: "ring_queue two_worker_system 0 = 2" by (simp add: ring_queue_def two_worker_system_def)
  have k: "(1::nat) < 10 * unat (nthreads two_worker_system) \<and> locks_from 1 1
             \<and> (\<forall>j<1. \<not> locks_from 1 j)"
    by (simp add: two_worker_system_def locks_from_def)
  have none: "\<forall>k<10 * unat (nthreads two_worker_system). \<not> never_locked k"
    by (simp add: never_locked_def)
  have 1: "push_ready two_worker_system (constant_callable 7) [] 2 (locks_from 1)
     = Inr (worker_enqueued two_worker_system 1 seven_task, 2)"
    using worker_submission [OF ok n b, of "locks_from 1" "constant_callable 7" "[]" 2] k
    by (simp only: r1 seven_task_def)
  have 2: "push_ready two_worker_system (constant_callable 7) [] 2 never_locked
     = Inr (worker_enqueued two_worker_system 2 seven_task, 2)"
    using worker_submission [OF ok n b, of never_locked "constant_callable 7" "[]" 2] none
    by (simp only: r0 seven_task_def)
  from 1 2 show ?thesis by (rule conjI)
qed

text \<open>
  Claim C7. Constructed with \<open>N = 0\<close>, the system has the main queue only and no
  thread; and in a system with \<open>N = 0\<close> every submission by \<^verbatim>\<open>push_ready\<close>,
  \<^verbatim>\<open>push_awaitable (f, args...)\<close> and \<^verbatim>\<open>push_awaitable (task)\<close> appends the task to
  queue 0, whatever the lock attempts yield, and changes nothing else.
\<close>

theorem no_workers_all_to_main:
  "threads (awaitable_task_system_new 0) = []
   \<and> queues (awaitable_task_system_new 0) = [task_queue_new]
   \<and> (nthreads sys = 0 \<and> queues sys \<noteq> [] \<and> queue_ok (queues sys ! 0) \<longrightarrow>
        push_ready sys f args out locks
          = Inr (main_enqueued sys (fst (make_ready_task f args out)), out)
        \<and> push_awaitable sys f fargs out locks
          = Inr (main_enqueued sys (fst (make_awaitable_task f fargs out)), out)
        \<and> push_awaitable_task sys t locks = Inr (main_enqueued sys t))"
  by (simp add: awaitable_task_system_new_def push_ready_def push_awaitable_def
      push_awaitable_task_def push_ready_on_main_def push_awaitable_on_main_def
      push_awaitable_task_on_main_def submit_to_main_ok Let_def
      make_ready_task_def make_awaitable_task_def get_future_def)


text \<open>Claim C7 on the system that the constructor makes for \<open>N = 0\<close>.\<close>

theorem no_workers_all_to_main_witness:
  "push_ready (awaitable_task_system_new 0) (constant_callable 7) [] 2 never_locked
     = Inr (main_enqueued (awaitable_task_system_new 0) seven_task, 2)
   \<and> push_awaitable_task (awaitable_task_system_new 0) pending_task (locks_from 1)
     = Inr (main_enqueued (awaitable_task_system_new 0) pending_task)"
proof -
  have h: "nthreads (awaitable_task_system_new 0) = 0 \<and> queues (awaitable_task_system_new 0) \<noteq> []
           \<and> queue_ok (queues (awaitable_task_system_new 0) ! 0)"
    by (simp add: awaitable_task_system_new_def queue_ok_new)
  have 1: "push_ready (awaitable_task_system_new 0) (constant_callable 7) [] 2 never_locked
     = Inr (main_enqueued (awaitable_task_system_new 0) seven_task, 2)"
    using no_workers_all_to_main [of "awaitable_task_system_new 0" "constant_callable 7" "[]" 2
        never_locked] h
    by (simp only: seven_task_def) blast
  have 2: "push_awaitable_task (awaitable_task_system_new 0) pending_task (locks_from 1)
     = Inr (main_enqueued (awaitable_task_system_new 0) pending_task)"
    using no_workers_all_to_main [of "awaitable_task_system_new 0" _ _ _ "locks_from 1" _
        pending_task] h
    by blast
  from 1 2 show ?thesis by (rule conjI)
qed

text \<open>
  Claim C9. When queue 0 is done and holds no task, \<^verbatim>\<open>run_on_main\<close> returns without
  invoking a task and without an error, and leaves the system and the futures as
  they were.
\<close>

theorem run_on_main_done_empty:
  assumes "queues sys \<noteq> []" and "q_done (queues sys ! 0)" and "q_tasks (queues sys ! 0) = []"
  shows "run_on_main sys env locks = Inr (sys, env, [])"
proof -
  have "pop (queues sys ! 0) env = Inr ((False, None), queues sys ! 0)"
    using assms by (simp add: pop_empty)
  moreover have "queue_upd sys get_main_thread_queue_idx (queues sys ! 0) = sys"
    using queue_upd_same [of sys 0] by (simp add: get_main_thread_queue_idx_def)
  ultimately show ?thesis
    using assms
    by (simp add: run_on_main_def main_try_pop_empty get_main_thread_queue_idx_def)
qed

text \<open>Claim C9 on the system for \<open>N = 0\<close> after \<^verbatim>\<open>done ()\<close>.\<close>

theorem run_on_main_done_empty_witness:
  "run_on_main (done_all (awaitable_task_system_new 0)) no_future_resolved never_locked
     = Inr (done_all (awaitable_task_system_new 0), no_future_resolved, [])"
proof -
  have a: "queues (done_all (awaitable_task_system_new 0)) \<noteq> []"
    by (simp add: done_all_def awaitable_task_system_new_def)
  have b: "q_done (queues (done_all (awaitable_task_system_new 0)) ! 0)"
    by (simp add: done_all_def awaitable_task_system_new_def set_done_def)
  have c: "q_tasks (queues (done_all (awaitable_task_system_new 0)) ! 0) = []"
    by (simp add: done_all_def awaitable_task_system_new_def set_done_def task_queue_new_def)
  show ?thesis by (rule run_on_main_done_empty [OF a b c])
qed

text \<open>
  Claim C10. \<^verbatim>\<open>get_thread_queue_idx\<close> divides by zero exactly when \<open>nthreads_\<close> is 0,
  and no submission entry point and no round of the worker loop, in any state and
  for any input, ends in a division by zero: with \<open>nthreads_ = 0\<close> the entry points
  take the main-queue path and the worker's probe loop has no iteration.
\<close>

theorem modulus_never_zero:
  "(get_thread_queue_idx sys idx seed = Inl division_by_zero) = (nthreads sys = 0)
   \<and> push_ready sys f args out locks \<noteq> Inl division_by_zero
   \<and> push_awaitable sys f fargs out locks \<noteq> Inl division_by_zero
   \<and> push_awaitable_task sys t locks \<noteq> Inl division_by_zero
   \<and> run_round sys env idx locks \<noteq> Inl division_by_zero
   \<and> run sys env idx rounds n \<noteq> Some (Inl division_by_zero)"
proof -
  have a: "(get_thread_queue_idx sys idx seed = Inl division_by_zero) = (nthreads sys = 0)"
    by (simp add: get_thread_queue_idx_def)
  have b: "push_ready sys f args out locks \<noteq> Inl division_by_zero"
  proof (cases "nthreads sys = 0")
    case True
    then show ?thesis
      using submit_to_main_abort [of sys _ locks _ division_by_zero]
      by (auto simp: push_ready_def push_ready_on_main_def Let_def then_do_Inl_iff)
  next
    case False
    then show ?thesis
      using submit_to_workers_abort [of sys _ locks division_by_zero]
      by (auto simp: push_ready_def Let_def then_do_Inl_iff)
  qed
  have c: "push_awaitable sys f fargs out locks \<noteq> Inl division_by_zero"
  proof (cases "nthreads sys = 0")
    case True
    then show ?thesis
      using submit_to_main_abort [of sys _ locks _ division_by_zero]
      by (auto simp: push_awaitable_def push_awaitable_on_main_def Let_def then_do_Inl_iff)
  next
    case False
    then show ?thesis
      using submit_to_workers_abort [of sys _ locks division_by_zero]
      by (auto simp: push_awaitable_def Let_def then_do_Inl_iff)
  qed
  have d: "push_awaitable_task sys t locks \<noteq> Inl division_by_zero"
  proof (cases "nthreads sys = 0")
    case True
    then show ?thesis
      using submit_to_main_abort [of sys t locks _ division_by_zero]
      by (auto simp: push_awaitable_task_def push_awaitable_task_on_main_def)
  next
    case False
    then show ?thesis
      using submit_to_workers_abort [of sys t locks division_by_zero]
      by (auto simp: push_awaitable_task_def)
  qed
  have e: "run_round sys env idx locks \<noteq> Inl division_by_zero"
    by (rule run_round_no_division_by_zero)
  have f: "run sys env idx rounds n \<noteq> Some (Inl division_by_zero)"
    using run_result_no_division_by_zero [of sys env idx rounds n "Inl division_by_zero"] by auto
  from a b c d e f show ?thesis by (intro conjI)
qed

end
